theory Spec2Isabelle
  imports Complex_Main
begin

section \<open>Wine review summarizer: chunking, length budget and two-pass reduction\<close>

text \<open>
  A shallow embedding of \<^verbatim>\<open>wine_review_summarizer.py\<close> (\<^verbatim>\<open>chunk_text\<close>,
  \<^verbatim>\<open>summarize_group\<close>) and of \<^verbatim>\<open>data/validator.py\<close>
  (\<^verbatim>\<open>validate_wine_reviews\<close>).

  The tokenizer and the summarization pipeline are objects of the \<^verbatim>\<open>transformers\<close>
  library, created once at module level. They are parameters of the model: a tokenizer
  is a pair of functions, a summarizer is a function that returns the generated text or
  raises. Every call of the summarizer is appended to a log, which makes the number and
  the arguments of the calls observable. Calls of \<^verbatim>\<open>logger.info\<close> are left out.
\<close>

subsection \<open>Exceptions\<close>

datatype error =
    IndexError        \<comment> \<open>an index past the end of a list, as \<^verbatim>\<open>summaries[0]\<close> on an empty list\<close>
  | ValueError        \<comment> \<open>\<^verbatim>\<open>range\<close> called with step zero\<close>
  | CapabilityError   \<comment> \<open>any exception raised inside the summarization pipeline\<close>

subsection \<open>The external tokenizer and summarizer\<close>

type_synonym token = int

text \<open>
  \<open>encode tk text add_special_tokens\<close> is \<^verbatim>\<open>tokenizer.encode(text, ...)\<close>;
  \<open>decode tk ids\<close> is \<^verbatim>\<open>tokenizer.decode(ids, skip_special_tokens=True)\<close>.
\<close>

record tokenizer =
  encode :: "string \<Rightarrow> bool \<Rightarrow> token list"
  decode :: "token list \<Rightarrow> string"

text \<open>One call of the pipeline: the input text, \<^verbatim>\<open>max_length\<close> and \<^verbatim>\<open>min_length\<close>.\<close>

type_synonym call = "string \<times> int \<times> int"

type_synonym summarizer = "call \<Rightarrow> error + string"

subsection \<open>Python primitives\<close>

text \<open>\<^verbatim>\<open>" ".join(texts)\<close>\<close>

fun join :: "string list \<Rightarrow> string" where
  "join [] = []"
| "join [x] = x"
| "join (x # y # ys) = x @ '' '' @ join (y # ys)"

text \<open>
  \<^verbatim>\<open>range(0, n, step)\<close> for a length \<open>n\<close>: a step of zero raises \<^verbatim>\<open>ValueError\<close>, a
  negative step gives the empty range, a positive step gives \<open>0, step, 2 * step, ...\<close>
  below \<open>n\<close> (\<open>range_step\<close>).
\<close>

definition range_step :: "nat \<Rightarrow> nat \<Rightarrow> nat list" where
  "range_step n step = map (\<lambda>k. k * step) [0..<(n + step - 1) div step]"

definition py_range0 :: "nat \<Rightarrow> int \<Rightarrow> error + nat list" where
  "py_range0 n step =
     (if step = 0 then Inl ValueError
      else if step < 0 then Inr []
      else Inr (range_step n (nat step)))"

text \<open>\<^verbatim>\<open>xs[i:j]\<close> for \<open>0 \<le> i \<le> j\<close>; Python clips both ends to the length of the list.\<close>

definition slice :: "'a list \<Rightarrow> nat \<Rightarrow> nat \<Rightarrow> 'a list" where
  "slice xs i j = take (j - i) (drop i xs)"

text \<open>
  \<^verbatim>\<open>int(x)\<close> on a float: truncation towards zero. The product \<^verbatim>\<open>input_len * 0.8\<close> is
  taken over the reals here; Python computes it in double precision, which truncates to
  the same integer for every token count a list in memory can have.
\<close>

definition py_int :: "real \<Rightarrow> int" where
  "py_int r = (if 0 \<le> r then \<lfloor>r\<rfloor> else \<lceil>r\<rceil>)"

subsection \<open>\<^verbatim>\<open>chunk_text\<close>\<close>

text \<open>
  The token windows that the loop of \<^verbatim>\<open>chunk_text\<close> cuts:
  \<^verbatim>\<open>tokens[i:i + max_tokens]\<close> for \<^verbatim>\<open>i in range(0, len(tokens), max_tokens)\<close>.
\<close>

definition chunk_tokens :: "token list \<Rightarrow> int \<Rightarrow> error + token list list" where
  "chunk_tokens tokens max_tokens =
     (case py_range0 (length tokens) max_tokens of
        Inl e \<Rightarrow> Inl e
      | Inr starts \<Rightarrow> Inr (map (\<lambda>i. slice tokens i (i + nat max_tokens)) starts))"

text \<open>\<^verbatim>\<open>chunk_text(texts, max_tokens)\<close>: join, encode, cut, decode each window.\<close>

definition chunk_text :: "tokenizer \<Rightarrow> string list \<Rightarrow> int \<Rightarrow> error + string list" where
  "chunk_text tk texts max_tokens =
     (let combined = join texts;
          tokens = encode tk combined True
      in case chunk_tokens tokens max_tokens of
           Inl e \<Rightarrow> Inl e
         | Inr windows \<Rightarrow> Inr (map (decode tk) windows))"

subsection \<open>\<^verbatim>\<open>summarize_group\<close>\<close>

text \<open>The prompt prefix \<^verbatim>\<open>intro\<close>; it ends with a newline.\<close>

definition intro :: string where
  "intro = ''Summarize the following reviews for a group of wines.'' @ [CHR 0x0A]"

text \<open>
  \<^verbatim>\<open>dynamic_max = min(max_len, max(min_len + 5, int(input_len * 0.8)))\<close>, the
  expression of both loops of \<^verbatim>\<open>summarize_group\<close>.
\<close>

definition dynamic_max :: "int \<Rightarrow> int \<Rightarrow> nat \<Rightarrow> int" where
  "dynamic_max max_len min_len input_len =
     min max_len (max (min_len + 5) (py_int (real input_len * 0.8)))"

text \<open>
  The arguments of the pipeline call that the body of either loop makes for one chunk:
  \<^verbatim>\<open>summarizer(intro + chunk, max_length=dynamic_max, min_length=min_len, ...)\<close>.
\<close>

definition summarizer_call :: "tokenizer \<Rightarrow> int \<Rightarrow> int \<Rightarrow> string \<Rightarrow> call" where
  "summarizer_call tk max_len min_len chunk =
     (let input_len = length (encode tk chunk False)
      in (intro @ chunk, dynamic_max max_len min_len input_len, min_len))"

text \<open>
  The loop \<^verbatim>\<open>for chunk in chunks\<close>, shared by the first pass and the merge pass. It takes
  the log of calls made so far and the summaries appended so far. An exception of the
  pipeline leaves the loop at once; the failed call is in the log.
\<close>

fun summarize_chunks ::
  "tokenizer \<Rightarrow> summarizer \<Rightarrow> int \<Rightarrow> int \<Rightarrow> string list \<Rightarrow> call list \<Rightarrow> string list
     \<Rightarrow> call list \<times> (error + string list)" where
  "summarize_chunks tk sm max_len min_len [] calls summaries = (calls, Inr summaries)"
| "summarize_chunks tk sm max_len min_len (chunk # chunks) calls summaries =
     (let c = summarizer_call tk max_len min_len chunk
      in case sm c of
           Inl e \<Rightarrow> (calls @ [c], Inl e)
         | Inr summary_text \<Rightarrow>
             summarize_chunks tk sm max_len min_len chunks (calls @ [c])
               (summaries @ [summary_text]))"

text \<open>A row of the grouped data frame; only \<^verbatim>\<open>review_texts\<close> is read.\<close>

record row =
  wine_variant :: string
  rating_band :: string
  review_texts :: "string list"

text \<open>
  \<^verbatim>\<open>summarize_group(row, max_len, min_len)\<close>. Both calls of \<^verbatim>\<open>chunk_text\<close> use the
  default \<^verbatim>\<open>max_tokens = 900\<close>. The result is the log of pipeline calls together with
  the returned summary or the exception raised.
\<close>

definition summarize_group ::
  "tokenizer \<Rightarrow> summarizer \<Rightarrow> row \<Rightarrow> int \<Rightarrow> int \<Rightarrow> call list \<times> (error + string)" where
  "summarize_group tk sm r max_len min_len =
     (let reviews = review_texts r
      in case chunk_text tk reviews 900 of
           Inl e \<Rightarrow> ([], Inl e)
         | Inr chunks \<Rightarrow>
            (case summarize_chunks tk sm max_len min_len chunks [] [] of
               (calls, Inl e) \<Rightarrow> (calls, Inl e)
             | (calls, Inr summaries) \<Rightarrow>
                 if length summaries > 1 then
                   (let combined = join summaries
                    in case chunk_text tk [combined] 900 of
                         Inl e \<Rightarrow> (calls, Inl e)
                       | Inr combined_chunks \<Rightarrow>
                          (case summarize_chunks tk sm max_len min_len combined_chunks calls [] of
                             (calls', Inl e) \<Rightarrow> (calls', Inl e)
                           | (calls', Inr final_summaries) \<Rightarrow>
                               (calls', Inr (join final_summaries))))
                 else
                   (case summaries of
                      [] \<Rightarrow> (calls, Inl IndexError)
                    | summary_text # _ \<Rightarrow> (calls, Inr summary_text))))"

subsection \<open>What a pass computes when no call fails\<close>

definition pass_calls :: "tokenizer \<Rightarrow> int \<Rightarrow> int \<Rightarrow> string list \<Rightarrow> call list" where
  "pass_calls tk max_len min_len chunks = map (summarizer_call tk max_len min_len) chunks"

definition pass_summaries ::
  "tokenizer \<Rightarrow> summarizer \<Rightarrow> int \<Rightarrow> int \<Rightarrow> string list \<Rightarrow> string list" where
  "pass_summaries tk sm max_len min_len chunks =
     map (\<lambda>chunk. projr (sm (summarizer_call tk max_len min_len chunk))) chunks"

subsection \<open>Example tokenizers and summarizers\<close>

text \<open>
  A character-level tokenizer that, like the BART tokenizer of the script, wraps the
  sequence in a begin token \<open>0\<close> and an end token \<open>2\<close> when special tokens are asked
  for, and drops them when decoding. Character codes are shifted past the special ids.
\<close>

definition bos_eos_tokenizer :: tokenizer where
  "bos_eos_tokenizer =
     \<lparr>encode = (\<lambda>s add_special_tokens.
                  if add_special_tokens then [0] @ map (\<lambda>c. int (of_char c) + 4) s @ [2]
                  else map (\<lambda>c. int (of_char c) + 4) s),
      decode = (\<lambda>ts. map (\<lambda>t. char_of (nat (t - 4))) (filter (\<lambda>t. 4 \<le> t) ts))\<rparr>"

text \<open>A character-level tokenizer without special tokens.\<close>

definition char_tokenizer :: tokenizer where
  "char_tokenizer =
     \<lparr>encode = (\<lambda>s add_special_tokens. map (\<lambda>c. int (of_char c)) s),
      decode = (\<lambda>ts. map (\<lambda>t. char_of (nat t)) ts)\<rparr>"

text \<open>A summarizer that answers every call with the same text.\<close>

definition const_summarizer :: "string \<Rightarrow> summarizer" where
  "const_summarizer s = (\<lambda>c. Inr s)"

text \<open>
  A summarizer that returns the first \<^verbatim>\<open>max_length\<close> characters of its input after the
  prompt prefix.
\<close>

definition lead_summarizer :: summarizer where
  "lead_summarizer = (\<lambda>(text, max_length, min_length).
     Inr (take (nat max_length) (drop (length intro) text)))"

section \<open>The dataset validator\<close>

text \<open>
  \<^verbatim>\<open>validate_wine_reviews\<close> opens the file with the encoding latin-1, in which every
  byte is one character, so the content of the file is a \<open>string\<close>. The model takes the
  content as Python's text layer delivers it, with every line end already translated to
  the newline character; errors of opening the file are left out.
\<close>

definition expected_keys :: "string list" where
  "expected_keys =
     [''wine/name'', ''wine/wineId'', ''wine/variant'', ''wine/year'', ''review/points'',
      ''review/time'', ''review/userId'', ''review/userName'', ''review/text'']"

definition newline :: char where
  "newline = CHR 0x0A"

text \<open>
  The lines that iterating over the file yields, each with its trailing newline removed
  by \<^verbatim>\<open>rstrip("\n")\<close>: a line ends at each newline character, and characters after the
  last newline form a final line. \<open>cur\<close> holds the characters of the line being read.
\<close>

fun split_lines :: "string \<Rightarrow> string \<Rightarrow> string list" where
  "split_lines cur [] = (if cur = [] then [] else [cur])"
| "split_lines cur (c # cs) =
     (if c = newline then cur # split_lines [] cs else split_lines (cur @ [c]) cs)"

definition file_lines :: "string \<Rightarrow> string list" where
  "file_lines content = split_lines [] content"

text \<open>\<^verbatim>\<open>line.startswith(p)\<close>\<close>

definition startswith :: "string \<Rightarrow> string \<Rightarrow> bool" where
  "startswith line p = (take (length p) line = p)"

text \<open>
  The validation message, with the values that the f-string of the source formats into
  it: the number of lines; the record number; the record number, the line number, the
  expected key and the key found (\<^verbatim>\<open>line.split(':', 1)[0]\<close>).
\<close>

datatype message =
    NotAligned nat
  | MissingBlank nat
  | KeyMismatch nat nat string string
  | AllValid

text \<open>
  The inner loop over \<^verbatim>\<open>enumerate(zip(expected_keys, record_lines))\<close> for record number
  \<open>n\<close>, from index \<open>j\<close> on: the message of the first line that does not start with its
  key and a colon, if there is one.
\<close>

fun check_keys :: "nat \<Rightarrow> nat \<Rightarrow> (string \<times> string) list \<Rightarrow> message option" where
  "check_keys n j [] = None"
| "check_keys n j ((expected_key, line) # rest) =
     (if \<not> startswith line (expected_key @ '':'')
      then Some (KeyMismatch n (j + 1) expected_key (takeWhile (\<lambda>c. c \<noteq> CHR '':'') line))
      else check_keys n (j + 1) rest)"

text \<open>
  The outer loop over the block starts \<open>i\<close>. Reading \<^verbatim>\<open>lines[i + 9]\<close> past the end of
  the list raises \<^verbatim>\<open>IndexError\<close>.
\<close>

fun check_records :: "string list \<Rightarrow> nat list \<Rightarrow> error + (bool \<times> message)" where
  "check_records lines [] = Inr (True, AllValid)"
| "check_records lines (i # rest) =
     (let record_lines = slice lines i (i + 9)
      in if length lines \<le> i + 9 then Inl IndexError
         else let blank_line = lines ! (i + 9)
           in if i + 10 < length lines \<and> blank_line \<noteq> '''' then
                Inr (False, MissingBlank (i div 10 + 1))
              else
                (case check_keys (i div 10 + 1) 0 (zip expected_keys record_lines) of
                   Some m \<Rightarrow> Inr (False, m)
                 | None \<Rightarrow> check_records lines rest))"

definition validate_wine_reviews :: "string \<Rightarrow> error + (bool \<times> message)" where
  "validate_wine_reviews content =
     (let lines = file_lines content;
          lines = (if (length lines + 1) mod 10 = 0 then lines @ [''''] else lines)
      in if length lines mod 10 \<noteq> 0 then Inr (False, NotAligned (length lines))
         else check_records lines (range_step (length lines) 10))"

subsection \<open>Well-formed dataset files\<close>

text \<open>
  The nine \<open>key: value\<close> lines of a record with the given values, in the fixed key
  order; the lines of a file of such records, each followed by a blank line; and the
  content of a file with the given lines, each ended by a newline.
\<close>

definition record_lines_of :: "string list \<Rightarrow> string list" where
  "record_lines_of vals = map (\<lambda>(k, v). k @ '': '' @ v) (zip expected_keys vals)"

definition dataset_lines :: "string list list \<Rightarrow> string list" where
  "dataset_lines recs = concat (map (\<lambda>vals. record_lines_of vals @ ['''']) recs)"

definition unlines :: "string list \<Rightarrow> string" where
  "unlines ls = concat (map (\<lambda>l. l @ [newline]) ls)"

definition well_formed :: "string list list \<Rightarrow> bool" where
  "well_formed recs = list_all (\<lambda>vals. length vals = 9 \<and> list_all (\<lambda>v. newline \<notin> set v) vals) recs"

text \<open>
  The list of lines after the optional append of an empty line, and what the body of the
  outer loop checks for the block that starts at line \<open>i\<close>.
\<close>

definition padded_lines :: "string list \<Rightarrow> string list" where
  "padded_lines ls = (if (length ls + 1) mod 10 = 0 then ls @ [''''] else ls)"

definition block_ok :: "string list \<Rightarrow> nat \<Rightarrow> bool" where
  "block_ok lines i =
     ((i + 10 < length lines \<longrightarrow> lines ! (i + 9) = '''')
      \<and> check_keys (i div 10 + 1) 0 (zip expected_keys (slice lines i (i + 9))) = None)"

text \<open>The values of one record, for the examples.\<close>

definition example_values :: "string list" where
  "example_values =
     [''Chateau Margaux'', ''1041'', ''Merlot'', ''2005'', ''92'', ''1199232000'', ''7731'',
      ''ann'', ''Deep ruby color.'']"

section \<open>Properties of the chunker\<close>

lemma concat_windows_take:
  "concat (map (\<lambda>k. take m (drop (k * m) xs)) [0..<c]) = take (c * m) xs"
proof (induction c)
  case 0
  show ?case by simp
next
  case (Suc c)
  have "take (c * m + m) xs = take (c * m) xs @ take m (drop (c * m) xs)"
    by (rule take_add)
  with Suc show ?case by (simp add: add.commute)
qed

lemma ceil_div_mult_ge:
  fixes n m :: nat
  assumes "0 < m"
  shows "n \<le> ((n + m - 1) div m) * m"
proof -
  have "n + m - 1 = ((n + m - 1) div m) * m + (n + m - 1) mod m"
    by simp
  moreover have "(n + m - 1) mod m \<le> m - 1"
    using assms by (simp add: less_Suc_eq_le [symmetric])
  ultimately show ?thesis
    using assms by linarith
qed

lemma lt_ceil_div_mult_less:
  fixes n m k :: nat
  assumes "0 < m" and "k < (n + m - 1) div m"
  shows "k * m < n"
proof -
  have "Suc k \<le> (n + m - 1) div m"
    using assms(2) by simp
  then have "Suc k * m \<le> ((n + m - 1) div m) * m"
    by (rule mult_le_mono1)
  also have "\<dots> \<le> n + m - 1"
    by simp
  finally show ?thesis
    using assms(1) by simp
qed

lemma chunk_tokens_pos:
  assumes "0 < max_tokens"
  shows "chunk_tokens tokens max_tokens =
           Inr (map (\<lambda>k. take (nat max_tokens) (drop (k * nat max_tokens) tokens))
                  [0..<(length tokens + nat max_tokens - 1) div nat max_tokens])"
  using assms by (simp add: chunk_tokens_def py_range0_def range_step_def slice_def comp_def)

lemma length_chunk_tokens:
  assumes "0 < max_tokens" and "chunk_tokens tokens max_tokens = Inr cs"
  shows "length cs = (length tokens + nat max_tokens - 1) div nat max_tokens"
  using assms by (auto simp add: chunk_tokens_pos)

lemma chunk_tokens_nth:
  assumes "0 < max_tokens" and "chunk_tokens tokens max_tokens = Inr cs"
    and "i < length cs"
  shows "cs ! i = take (nat max_tokens) (drop (i * nat max_tokens) tokens)"
  using assms by (auto simp add: chunk_tokens_pos)

lemma ceil_div_one:
  fixes n m :: nat
  assumes "0 < n" and "n \<le> m"
  shows "(n + m - 1) div m = 1"
proof (rule div_nat_eqI)
  show "m * 1 \<le> n + m - 1" using assms by linarith
  show "n + m - 1 < m * Suc 1" using assms by simp
qed

lemma chunk_tokens_single:
  assumes "tokens \<noteq> []" and "int (length tokens) \<le> max_tokens"
  shows "chunk_tokens tokens max_tokens = Inr [tokens]"
proof -
  let ?n = "length tokens" and ?m = "nat max_tokens"
  have n: "0 < ?n" using assms(1) by simp
  then have "0 < int ?n" by simp
  with assms(2) have pos: "0 < max_tokens" by linarith
  from assms(2) have le: "?n \<le> ?m" by simp
  have "(?n + ?m - 1) div ?m = 1"
    using n le by (rule ceil_div_one)
  then show ?thesis
    using le by (simp add: chunk_tokens_pos [OF pos])
qed

lemma chunk_text_single:
  assumes "encode tk (join texts) True \<noteq> []"
    and "int (length (encode tk (join texts) True)) \<le> max_tokens"
  shows "chunk_text tk texts max_tokens = Inr [decode tk (encode tk (join texts) True)]"
  using chunk_tokens_single [OF assms] by (simp add: chunk_text_def)

text \<open>
  C6. For every token sequence and every positive \<open>max_tokens\<close> the chunker returns, and
  the concatenation of its windows, in order, is the token sequence itself.
\<close>

theorem chunk_tokens_concat:
  assumes "0 < max_tokens"
  shows "\<exists>cs. chunk_tokens tokens max_tokens = Inr cs \<and> concat cs = tokens"
proof -
  let ?m = "nat max_tokens"
  let ?c = "(length tokens + ?m - 1) div ?m"
  have "0 < ?m" using assms by simp
  then have "length tokens \<le> ?c * ?m" by (rule ceil_div_mult_ge)
  then have "take (?c * ?m) tokens = tokens" by simp
  then show ?thesis
    using assms by (simp add: chunk_tokens_pos concat_windows_take)
qed

theorem chunk_tokens_concat_witness:
  "\<exists>cs. chunk_tokens [11, 12, 13, 14, 15, 16, 17] 3 = Inr cs
        \<and> concat cs = [11, 12, 13, 14, 15, 16, 17]"
  using chunk_tokens_concat [of 3 "[11, 12, 13, 14, 15, 16, 17]"] by simp

text \<open>
  C7. For every token sequence and every positive \<open>max_tokens\<close> the chunker returns
  windows of which each has at most \<open>max_tokens\<close> tokens and at least one, and each
  window but the last has exactly \<open>max_tokens\<close> tokens.
\<close>

theorem chunk_tokens_lengths:
  assumes "0 < max_tokens"
  shows "\<exists>cs. chunk_tokens tokens max_tokens = Inr cs
          \<and> (\<forall>i < length cs.
                 length (cs ! i) \<le> nat max_tokens
               \<and> 0 < length (cs ! i)
               \<and> (Suc i < length cs \<longrightarrow> length (cs ! i) = nat max_tokens))"
proof -
  let ?m = "nat max_tokens"
  let ?c = "(length tokens + ?m - 1) div ?m"
  let ?cs = "map (\<lambda>k. take ?m (drop (k * ?m) tokens)) [0..<?c]"
  have m: "0 < ?m" using assms by simp
  have cs: "chunk_tokens tokens max_tokens = Inr ?cs"
    using assms by (rule chunk_tokens_pos)
  have "length (?cs ! i) \<le> ?m \<and> 0 < length (?cs ! i)
        \<and> (Suc i < length ?cs \<longrightarrow> length (?cs ! i) = ?m)"
    if i: "i < length ?cs" for i
  proof -
    have ic: "i < ?c" using i by simp
    have nth: "?cs ! i = take ?m (drop (i * ?m) tokens)"
      using ic by simp
    have pos: "i * ?m < length tokens"
      using m ic by (rule lt_ceil_div_mult_less)
    have full: "length (?cs ! i) = ?m" if "Suc i < length ?cs"
    proof -
      have "Suc i < ?c" using that by simp
      with m have "Suc i * ?m < length tokens" by (rule lt_ceil_div_mult_less)
      then show ?thesis unfolding nth by simp
    qed
    show ?thesis
      using pos m full unfolding nth by simp
  qed
  with cs show ?thesis by blast
qed

theorem chunk_tokens_lengths_witness:
  "\<exists>cs. chunk_tokens [11, 12, 13, 14, 15, 16, 17] 3 = Inr cs
        \<and> (\<forall>i < length cs.
               length (cs ! i) \<le> nat 3
             \<and> 0 < length (cs ! i)
             \<and> (Suc i < length cs \<longrightarrow> length (cs ! i) = nat 3))"
  using chunk_tokens_lengths [of 3 "[11, 12, 13, 14, 15, 16, 17]"] by simp

section \<open>Properties of the budget and of the reducer\<close>


lemma py_int_of_nat_08: "py_int (real n * 0.8) = (4 * int n) div 5"
proof -
  have "real n * 0.8 = real_of_int (4 * int n) / real_of_int 5"
    by simp
  then have "\<lfloor>real n * 0.8\<rfloor> = (4 * int n) div 5"
    by (simp only: floor_divide_of_int_eq)
  then show ?thesis
    by (simp add: py_int_def)
qed

lemma dynamic_max_eq:
  "dynamic_max max_len min_len n = min max_len (max (min_len + 5) ((4 * int n) div 5))"
  by (simp only: dynamic_max_def py_int_of_nat_08)

lemma length_intro: "length intro = 54"
  by (simp add: intro_def)

lemma chunk_text_900:
  "chunk_text tk texts 900 =
     Inr (map (\<lambda>k. decode tk (take 900 (drop (k * 900) (encode tk (join texts) True))))
            [0..<(length (encode tk (join texts) True) + 899) div 900])"
  by (simp add: chunk_text_def chunk_tokens_pos comp_def Let_def add.commute)

lemma summarize_chunks_log:
  "\<exists>k \<le> length chunks.
     fst (summarize_chunks tk sm max_len min_len chunks calls acc) =
       calls @ map (summarizer_call tk max_len min_len) (take k chunks)
     \<and> (chunks \<noteq> [] \<longrightarrow> 0 < k)"
proof (induction chunks arbitrary: calls acc)
  case Nil
  show ?case by simp
next
  case (Cons chunk chunks)
  let ?c = "summarizer_call tk max_len min_len chunk"
  show ?case
  proof (cases "sm ?c")
    case (Inl e)
    then have "fst (summarize_chunks tk sm max_len min_len (chunk # chunks) calls acc) =
                 calls @ map (summarizer_call tk max_len min_len) (take 1 (chunk # chunks))"
      by simp
    then show ?thesis
      by (intro exI [of _ 1]) simp
  next
    case (Inr s)
    from Cons.IH [of "calls @ [?c]" "acc @ [s]"]
    obtain k where k: "k \<le> length chunks"
      "fst (summarize_chunks tk sm max_len min_len chunks (calls @ [?c]) (acc @ [s])) =
         (calls @ [?c]) @ map (summarizer_call tk max_len min_len) (take k chunks)"
      by blast
    with Inr show ?thesis
      by (intro exI [of _ "Suc k"]) simp
  qed
qed

lemma summarize_chunks_nofail:
  assumes "\<And>c. \<exists>s. sm c = Inr s"
  shows "summarize_chunks tk sm max_len min_len chunks calls acc =
           (calls @ pass_calls tk max_len min_len chunks,
            Inr (acc @ pass_summaries tk sm max_len min_len chunks))"
proof (induction chunks arbitrary: calls acc)
  case Nil
  show ?case by (simp add: pass_calls_def pass_summaries_def)
next
  case (Cons chunk chunks)
  obtain s where s: "sm (summarizer_call tk max_len min_len chunk) = Inr s"
    using assms by blast
  show ?case
    using s Cons.IH [of "calls @ [summarizer_call tk max_len min_len chunk]" "acc @ [s]"]
    by (simp add: pass_calls_def pass_summaries_def)
qed

lemma chunk_text_900_window:
  assumes "chunk_text tk texts 900 = Inr chunks" and "chunk \<in> set chunks"
  shows "\<exists>w. chunk = decode tk w \<and> length w \<le> 900"
proof -
  from assms obtain k where
    "chunk = decode tk (take 900 (drop (k * 900) (encode tk (join texts) True)))"
    by (auto simp add: chunk_text_900)
  then show ?thesis
    by (intro exI [of _ "take 900 (drop (k * 900) (encode tk (join texts) True))"]) simp
qed

lemma chunk_text_900_nonempty:
  assumes "encode tk (join texts) True \<noteq> []"
  shows "chunk_text tk texts 900 \<noteq> Inr []"
proof -
  have "0 < length (encode tk (join texts) True)" using assms by simp
  then have "0 < (length (encode tk (join texts) True) + 899) div 900"
    by arith
  then show ?thesis
    by (simp add: chunk_text_900)
qed

lemma chunk_text_900_single:
  assumes "encode tk (join texts) True \<noteq> []"
    and "length (encode tk (join texts) True) \<le> 900"
  shows "chunk_text tk texts 900 = Inr [decode tk (encode tk (join texts) True)]"
proof -
  let ?n = "length (encode tk (join texts) True)"
  have "0 < ?n" using assms(1) by simp
  with assms(2) have "(?n + 899) div 900 = 1"
    by arith
  then show ?thesis
    using assms(2) by (simp add: chunk_text_900)
qed

lemma summarize_chunks_set:
  assumes "summarize_chunks tk sm max_len min_len chunks calls acc = (calls', r)"
  shows "set calls' \<subseteq> set calls \<union> summarizer_call tk max_len min_len ` set chunks"
proof -
  from summarize_chunks_log [of chunks tk sm max_len min_len calls acc]
  obtain k where "calls' = calls @ map (summarizer_call tk max_len min_len) (take k chunks)"
    using assms by auto
  then show ?thesis
    by (auto dest: in_set_takeD)
qed

lemma summarize_chunks_called:
  assumes "chunks \<noteq> []"
  shows "fst (summarize_chunks tk sm max_len min_len chunks calls acc) \<noteq> []"
  using summarize_chunks_log [of chunks tk sm max_len min_len calls acc] assms
  by (cases chunks) auto

lemma summarize_group_single:
  assumes "encode tk (join (review_texts r)) True \<noteq> []"
    and "length (encode tk (join (review_texts r)) True) \<le> 900"
  shows "summarize_group tk sm r max_len min_len =
           ([summarizer_call tk max_len min_len
               (decode tk (encode tk (join (review_texts r)) True))],
            sm (summarizer_call tk max_len min_len
               (decode tk (encode tk (join (review_texts r)) True))))"
proof -
  let ?c = "summarizer_call tk max_len min_len
              (decode tk (encode tk (join (review_texts r)) True))"
  have ch: "chunk_text tk (review_texts r) 900 =
              Inr [decode tk (encode tk (join (review_texts r)) True)]"
    using assms by (rule chunk_text_900_single)
  show ?thesis
  proof (cases "sm ?c")
    case (Inl e)
    then show ?thesis by (simp add: summarize_group_def ch)
  next
    case (Inr s)
    then show ?thesis by (simp add: summarize_group_def ch)
  qed
qed

lemma summarize_group_no_tokens:
  assumes "encode tk (join (review_texts r)) True = []"
  shows "summarize_group tk sm r max_len min_len = ([], Inl IndexError)"
  using assms by (simp add: summarize_group_def chunk_text_900)

lemma chunk_text_900_Inr:
  "\<exists>chunks. chunk_text tk texts 900 = Inr chunks"
  by (simp add: chunk_text_900)

lemma summarize_group_calls:
  assumes "c \<in> set (fst (summarize_group tk sm r max_len min_len))"
  shows "\<exists>w. length w \<le> 900 \<and> c = summarizer_call tk max_len min_len (decode tk w)"
proof -
  obtain chunks where ch: "chunk_text tk (review_texts r) 900 = Inr chunks"
    using chunk_text_900_Inr by blast
  obtain calls res where p1: "summarize_chunks tk sm max_len min_len chunks [] [] = (calls, res)"
    by (cases "summarize_chunks tk sm max_len min_len chunks [] []")
  have calls: "set calls \<subseteq> summarizer_call tk max_len min_len ` set chunks"
    using summarize_chunks_set [OF p1] by simp
  have one: "\<exists>w. length w \<le> 900 \<and> c = summarizer_call tk max_len min_len (decode tk w)"
    if "c \<in> set calls"
  proof -
    from that calls obtain chunk where "chunk \<in> set chunks"
      "c = summarizer_call tk max_len min_len chunk" by blast
    with chunk_text_900_window [OF ch] show ?thesis by blast
  qed
  show ?thesis
  proof (cases res)
    case (Inl e)
    with assms ch p1 have "c \<in> set calls" by (simp add: summarize_group_def)
    then show ?thesis by (rule one)
  next
    case (Inr summaries)
    show ?thesis
    proof (cases "length summaries > 1")
      case False
      with assms ch p1 Inr have "c \<in> set calls"
        by (simp add: summarize_group_def split: list.splits)
      then show ?thesis by (rule one)
    next
      case True
      obtain chunks2 where ch2: "chunk_text tk [join summaries] 900 = Inr chunks2"
        using chunk_text_900_Inr by blast
      obtain calls2 res2 where
        p2: "summarize_chunks tk sm max_len min_len chunks2 calls [] = (calls2, res2)"
        by (cases "summarize_chunks tk sm max_len min_len chunks2 calls []")
      have "fst (summarize_group tk sm r max_len min_len) = calls2"
        using ch p1 Inr True ch2 p2 by (simp add: summarize_group_def split: sum.splits)
      with assms have "c \<in> set calls2" by simp
      with summarize_chunks_set [OF p2]
      consider "c \<in> set calls" | "c \<in> summarizer_call tk max_len min_len ` set chunks2"
        by blast
      then show ?thesis
      proof cases
        case 1
        then show ?thesis by (rule one)
      next
        case 2
        then obtain chunk where "chunk \<in> set chunks2"
          "c = summarizer_call tk max_len min_len chunk" by blast
        with chunk_text_900_window [OF ch2] show ?thesis by blast
      qed
    qed
  qed
qed

lemma summarize_chunks_log_mono:
  assumes "summarize_chunks tk sm max_len min_len chunks calls acc = (calls', r)"
    and "calls \<noteq> []"
  shows "calls' \<noteq> []"
  using summarize_chunks_log [of chunks tk sm max_len min_len calls acc] assms by auto

lemma summarize_group_called:
  assumes "encode tk (join (review_texts r)) True \<noteq> []"
  shows "fst (summarize_group tk sm r max_len min_len) \<noteq> []"
proof -
  obtain chunks where ch: "chunk_text tk (review_texts r) 900 = Inr chunks"
    using chunk_text_900_Inr by blast
  with chunk_text_900_nonempty [OF assms] have ne: "chunks \<noteq> []" by auto
  obtain calls res where p1: "summarize_chunks tk sm max_len min_len chunks [] [] = (calls, res)"
    by (cases "summarize_chunks tk sm max_len min_len chunks [] []")
  have c1: "calls \<noteq> []"
    using summarize_chunks_called [OF ne, of tk sm max_len min_len "[]" "[]"] p1 by simp
  show ?thesis
  proof (cases res)
    case (Inl e)
    with ch p1 c1 show ?thesis by (simp add: summarize_group_def)
  next
    case (Inr summaries)
    show ?thesis
    proof (cases "length summaries > 1")
      case False
      with ch p1 Inr c1 show ?thesis
        by (simp add: summarize_group_def split: list.splits)
    next
      case True
      obtain chunks2 where ch2: "chunk_text tk [join summaries] 900 = Inr chunks2"
        using chunk_text_900_Inr by blast
      obtain calls2 res2 where
        p2: "summarize_chunks tk sm max_len min_len chunks2 calls [] = (calls2, res2)"
        by (cases "summarize_chunks tk sm max_len min_len chunks2 calls []")
      have "fst (summarize_group tk sm r max_len min_len) = calls2"
        using ch p1 Inr True ch2 p2 by (simp add: summarize_group_def split: sum.splits)
      with summarize_chunks_log_mono [OF p2 c1] show ?thesis by simp
    qed
  qed
qed

lemma summarize_group_nofail:
  assumes nofail: "\<And>c. \<exists>s. sm c = Inr s"
    and ch: "chunk_text tk (review_texts r) 900 = Inr chunks"
  shows "summarize_group tk sm r max_len min_len =
           (if length chunks > 1 then
              (pass_calls tk max_len min_len chunks
                 @ pass_calls tk max_len min_len
                     (projr (chunk_text tk [join (pass_summaries tk sm max_len min_len chunks)] 900)),
               Inr (join (pass_summaries tk sm max_len min_len
                     (projr (chunk_text tk [join (pass_summaries tk sm max_len min_len chunks)] 900)))))
            else if chunks = [] then ([], Inl IndexError)
            else (pass_calls tk max_len min_len chunks,
                  Inr (hd (pass_summaries tk sm max_len min_len chunks))))"
proof -
  have p: "summarize_chunks tk sm max_len min_len cs calls acc =
             (calls @ pass_calls tk max_len min_len cs,
              Inr (acc @ pass_summaries tk sm max_len min_len cs))" for cs calls acc
    using nofail by (rule summarize_chunks_nofail)
  have len: "length (pass_summaries tk sm max_len min_len chunks) = length chunks"
    by (simp add: pass_summaries_def)
  show ?thesis
  proof (cases "length chunks > 1")
    case True
    obtain chunks2 where ch2:
      "chunk_text tk [join (pass_summaries tk sm max_len min_len chunks)] 900 = Inr chunks2"
      using chunk_text_900_Inr by blast
    show ?thesis
      using True by (simp add: summarize_group_def ch p len ch2)
  next
    case False
    show ?thesis
    proof (cases chunks)
      case Nil
      then show ?thesis
        by (simp add: summarize_group_def ch pass_calls_def pass_summaries_def)
    next
      case (Cons a list)
      with False have "list = []" by simp
      with Cons show ?thesis
        by (simp add: summarize_group_def ch p pass_calls_def pass_summaries_def
              del: summarize_chunks.simps)
    qed
  qed
qed

subsection \<open>The example tokenizers and summarizers\<close>

lemma bos_eos_encode_True:
  "encode bos_eos_tokenizer s True = 0 # map (\<lambda>c. int (of_char c) + 4) s @ [2]"
  by (simp add: bos_eos_tokenizer_def)

lemma bos_eos_length_True: "length (encode bos_eos_tokenizer s True) = length s + 2"
  by (simp add: bos_eos_tokenizer_def)

lemma bos_eos_length_False: "length (encode bos_eos_tokenizer s False) = length s"
  by (simp add: bos_eos_tokenizer_def)

lemma bos_eos_decode_encode: "decode bos_eos_tokenizer (encode bos_eos_tokenizer s b) = s"
  by (simp add: bos_eos_tokenizer_def comp_def filter_map)

lemma bos_eos_decode_specials: "decode bos_eos_tokenizer [0, 2] = []"
  by (simp add: bos_eos_tokenizer_def)

lemma bos_eos_single:
  assumes "length (join (review_texts r)) \<le> 898"
  shows "summarize_group bos_eos_tokenizer sm r max_len min_len =
           ([(intro @ join (review_texts r),
              dynamic_max max_len min_len (length (join (review_texts r))), min_len)],
            sm (intro @ join (review_texts r),
              dynamic_max max_len min_len (length (join (review_texts r))), min_len))"
proof -
  have a: "encode bos_eos_tokenizer (join (review_texts r)) True \<noteq> []"
    by (simp add: bos_eos_encode_True)
  have b: "length (encode bos_eos_tokenizer (join (review_texts r)) True) \<le> 900"
    using assms by (simp add: bos_eos_length_True)
  show ?thesis
    unfolding summarize_group_single [OF a b] bos_eos_decode_encode summarizer_call_def
      bos_eos_length_False Let_def ..
qed

lemma example_join:
  "join [''Deep ruby color.'', ''Soft tannins.''] = ''Deep ruby color. Soft tannins.''"
  by simp

lemma example_length: "length ''Deep ruby color. Soft tannins.'' = 30"
  by simp

lemma example_group_call:
  "summarize_group bos_eos_tokenizer sm
     \<lparr>wine_variant = ''Merlot'', rating_band = ''85-89 (Very Good)'',
      review_texts = [''Deep ruby color.'', ''Soft tannins.'']\<rparr> max_len min_len =
   ([(intro @ ''Deep ruby color. Soft tannins.'', dynamic_max max_len min_len 30, min_len)],
    sm (intro @ ''Deep ruby color. Soft tannins.'', dynamic_max max_len min_len 30, min_len))"
proof -
  let ?r = "\<lparr>wine_variant = ''Merlot'', rating_band = ''85-89 (Very Good)'',
      review_texts = [''Deep ruby color.'', ''Soft tannins.'']\<rparr>"
  have j: "join (review_texts ?r) = ''Deep ruby color. Soft tannins.''"
    by simp
  have "length (join (review_texts ?r)) \<le> 898"
    unfolding j example_length by simp
  from bos_eos_single [OF this, of sm max_len min_len] show ?thesis
    unfolding j example_length .
qed

lemma char_encode: "encode char_tokenizer s b = map (\<lambda>c. int (of_char c)) s"
  by (simp add: char_tokenizer_def)

lemma lead_summarizer_total: "\<exists>s. lead_summarizer c = Inr s"
  by (cases c) (simp add: lead_summarizer_def)

lemma lead_summarizer_call:
  "lead_summarizer (intro @ chunk, mx, mn) = Inr (take (nat mx) chunk)"
  by (simp add: lead_summarizer_def)

lemma dynamic_max_inverted:
  assumes "max_len < min_len"
  shows "dynamic_max max_len min_len n = max_len"
  using assms by (simp add: dynamic_max_eq)

lemma length_chunk_text_900:
  assumes "chunk_text tk texts 900 = Inr chunks"
  shows "length chunks = (length (encode tk (join texts) True) + 899) div 900"
  using assms by (auto simp add: chunk_text_900)

lemma pass_summaries_const:
  "pass_summaries tk (const_summarizer s) max_len min_len chunks = replicate (length chunks) s"
  by (simp add: pass_summaries_def const_summarizer_def map_replicate_const)

lemma const_summarizer_total: "\<exists>t. const_summarizer s c = Inr t"
  by (simp add: const_summarizer_def)

lemma length_pass_calls: "length (pass_calls tk max_len min_len chunks) = length chunks"
  by (simp add: pass_calls_def)

lemma length_join_replicate: "length (join (replicate (Suc n) s)) = Suc n * length s + n"
  by (induction n) simp_all

lemma const_two_passes:
  assumes ch1: "chunk_text tk (review_texts r) 900 = Inr chunks"
    and len: "length chunks > 1"
    and ch2: "chunk_text tk [join (replicate (length chunks) s)] 900 = Inr merged"
  shows "summarize_group tk (const_summarizer s) r max_len min_len =
           (pass_calls tk max_len min_len chunks @ pass_calls tk max_len min_len merged,
            Inr (join (replicate (length merged) s)))"
  using len
  by (simp add: summarize_group_nofail [OF const_summarizer_total ch1]
        pass_summaries_const ch2)

lemma upt_0_2: "[0..<2] = [0, 1]"
  by (simp add: numeral_2_eq_2)

lemma bos_eos_decode_wrapped:
  "decode bos_eos_tokenizer (0 # map (\<lambda>c. int (of_char c) + 4) s) = s"
  "decode bos_eos_tokenizer [2] = []"
  by (simp_all add: bos_eos_tokenizer_def comp_def filter_map)

lemma bos_eos_chunks_899:
  assumes "length s = 899"
  shows "chunk_text bos_eos_tokenizer [s] 900 = Inr [s, '''']"
proof -
  let ?body = "0 # map (\<lambda>c. int (of_char c) + 4) s"
  have e: "encode bos_eos_tokenizer (join [s]) True = ?body @ [2]"
    by (simp add: bos_eos_encode_True)
  have lb: "length ?body = 900" using assms by simp
  have l: "(length (?body @ [2]) + 899) div 900 = 2"
    using assms by simp
  have t0: "take 900 (drop (0 * 900) (?body @ [2])) = ?body"
    using lb by simp
  have t1: "take 900 (drop (1 * 900) (?body @ [2])) = [2]"
    using lb by simp
  show ?thesis
    unfolding chunk_text_900 e l upt_0_2
    by (simp only: list.map t0 t1 bos_eos_decode_wrapped)
qed

lemma example_899_chunks:
  "chunk_text bos_eos_tokenizer [replicate 899 CHR ''x''] 900 = Inr [replicate 899 CHR ''x'', '''']"
  by (rule bos_eos_chunks_899) simp

lemma example_899_summaries:
  "pass_summaries bos_eos_tokenizer lead_summarizer 80 30 [replicate 899 CHR ''x'', ''''] =
     [replicate 80 CHR ''x'', '''']"
  by (simp add: pass_summaries_def summarizer_call_def lead_summarizer_call
        bos_eos_length_False dynamic_max_eq)

lemma example_899_merged:
  "chunk_text bos_eos_tokenizer [join [replicate 80 CHR ''x'', '''']] 900 =
     Inr [replicate 80 CHR ''x'' @ '' '']"
proof -
  have j: "join [join [replicate 80 CHR ''x'', '''']] = replicate 80 CHR ''x'' @ '' ''"
    by simp
  have a: "encode bos_eos_tokenizer (join [join [replicate 80 CHR ''x'', '''']]) True \<noteq> []"
    by (simp add: bos_eos_encode_True)
  have b: "length (encode bos_eos_tokenizer (join [join [replicate 80 CHR ''x'', '''']]) True) \<le> 900"
    unfolding j by (simp add: bos_eos_length_True)
  show ?thesis
    unfolding chunk_text_900_single [OF a b] bos_eos_decode_encode j ..
qed

section \<open>The claims about the budget and the reducer\<close>

text \<open>
  C1 (as the code has it). For every chunk, the call made for it carries
  \<open>max_length = min max_len (max (min_len + 5) \<lfloor>input_len * 0.8\<rfloor>)\<close>, where \<open>input_len\<close>
  is the chunk's token count without special tokens, and \<open>min_length = min_len\<close>
  unchanged. The product is truncated by \<^verbatim>\<open>int\<close>, which on a non-negative number is
  rounding down, not rounding to the nearest integer: the budget is
  \<open>min max_len (max (min_len + 5) (4 * input_len div 5))\<close>.
\<close>

theorem summarizer_call_budget:
  "summarizer_call tk max_len min_len chunk =
     (intro @ chunk,
      min max_len (max (min_len + 5) \<lfloor>real (length (encode tk chunk False)) * 0.8\<rfloor>),
      min_len)
   \<and> dynamic_max max_len min_len input_len =
       min max_len (max (min_len + 5) ((4 * int input_len) div 5))"
proof -
  have "py_int (real n * 0.8) = \<lfloor>real n * 0.8\<rfloor>" for n
    by (simp add: py_int_def)
  then have "summarizer_call tk max_len min_len chunk =
     (intro @ chunk,
      min max_len (max (min_len + 5) \<lfloor>real (length (encode tk chunk False)) * 0.8\<rfloor>),
      min_len)"
    by (simp only: summarizer_call_def dynamic_max_def Let_def)
  then show ?thesis
    by (simp only: dynamic_max_eq simp_thms)
qed

text \<open>
  C1 as the specification states it fails: for a chunk of 47 tokens and the default
  bounds \<open>(30, 80)\<close> the code computes 37, while rounding \<open>37.6\<close> to the nearest integer
  gives 38.
\<close>

theorem dynamic_max_round_counterexample:
  "dynamic_max 80 30 47 = 37
   \<and> min 80 (max (30 + 5) (round (real 47 * 0.8))) = (38::int)"
  by (simp add: dynamic_max_eq round_def)

text \<open>
  C2 (as the code has it). \<^verbatim>\<open>summarize_group\<close> is a total function: it returns for every
  input. When no call of the summarizer fails and the joined text has a token, it makes
  at most two passes, a limit written into the code: the first pass over the chunks of
  the group, and, only when the first pass gave more than one summary, one merge pass
  over the chunks of the joined summaries. It does not loop until a pass gives a single
  chunk: the result is the one summary of the first pass, or the summaries of the merge
  pass joined by single spaces, however many the merge pass gave.
\<close>

theorem summarize_group_two_passes:
  assumes "\<And>c. \<exists>s. sm c = Inr s"
    and "encode tk (join (review_texts r)) True \<noteq> []"
  shows "\<exists>chunks. chunk_text tk (review_texts r) 900 = Inr chunks \<and> chunks \<noteq> [] \<and>
     (if length chunks = 1 then
        summarize_group tk sm r max_len min_len =
          (pass_calls tk max_len min_len chunks,
           Inr (hd (pass_summaries tk sm max_len min_len chunks)))
      else
        \<exists>merged. chunk_text tk [join (pass_summaries tk sm max_len min_len chunks)] 900 =
                   Inr merged
          \<and> summarize_group tk sm r max_len min_len =
              (pass_calls tk max_len min_len chunks @ pass_calls tk max_len min_len merged,
               Inr (join (pass_summaries tk sm max_len min_len merged))))"
proof -
  obtain chunks where ch: "chunk_text tk (review_texts r) 900 = Inr chunks"
    using chunk_text_900_Inr by blast
  with chunk_text_900_nonempty [OF assms(2)] have ne: "chunks \<noteq> []" by auto
  obtain merged where
    m: "chunk_text tk [join (pass_summaries tk sm max_len min_len chunks)] 900 = Inr merged"
    using chunk_text_900_Inr by blast
  have "length chunks = 1 \<or> length chunks > 1"
    using ne by (cases chunks) auto
  then have "if length chunks = 1 then
        summarize_group tk sm r max_len min_len =
          (pass_calls tk max_len min_len chunks,
           Inr (hd (pass_summaries tk sm max_len min_len chunks)))
      else
        \<exists>merged. chunk_text tk [join (pass_summaries tk sm max_len min_len chunks)] 900 =
                   Inr merged
          \<and> summarize_group tk sm r max_len min_len =
              (pass_calls tk max_len min_len chunks @ pass_calls tk max_len min_len merged,
               Inr (join (pass_summaries tk sm max_len min_len merged)))"
    using ne m by (auto simp add: summarize_group_nofail [OF assms(1) ch])
  with ch ne show ?thesis by blast
qed

text \<open>
  A review of 1000 characters with a summarizer that always answers with 80 characters:
  two chunks in the first pass, one in the merge pass, three calls.
\<close>

theorem summarize_group_two_passes_witness:
  "length (fst (summarize_group bos_eos_tokenizer (const_summarizer (replicate 80 CHR ''a''))
      \<lparr>wine_variant = ''Merlot'', rating_band = ''85-89 (Very Good)'',
       review_texts = [replicate 1000 CHR ''x'']\<rparr> 80 30)) = 3
   \<and> snd (summarize_group bos_eos_tokenizer (const_summarizer (replicate 80 CHR ''a''))
      \<lparr>wine_variant = ''Merlot'', rating_band = ''85-89 (Very Good)'',
       review_texts = [replicate 1000 CHR ''x'']\<rparr> 80 30)
     = Inr (replicate 80 CHR ''a'')"
proof -
  let ?r = "\<lparr>wine_variant = ''Merlot'', rating_band = ''85-89 (Very Good)'',
       review_texts = [replicate 1000 CHR ''x'']\<rparr>"
  let ?s = "replicate 80 CHR ''a''"
  let ?sm = "const_summarizer ?s"
  have ne: "encode bos_eos_tokenizer (join (review_texts ?r)) True \<noteq> []"
    by (simp add: bos_eos_encode_True)
  from summarize_group_two_passes [of ?sm bos_eos_tokenizer ?r 80 30, OF const_summarizer_total ne]
  obtain chunks where ch: "chunk_text bos_eos_tokenizer (review_texts ?r) 900 = Inr chunks"
    and res: "if length chunks = 1 then
        summarize_group bos_eos_tokenizer ?sm ?r 80 30 =
          (pass_calls bos_eos_tokenizer 80 30 chunks,
           Inr (hd (pass_summaries bos_eos_tokenizer ?sm 80 30 chunks)))
      else
        \<exists>merged. chunk_text bos_eos_tokenizer
                    [join (pass_summaries bos_eos_tokenizer ?sm 80 30 chunks)] 900 = Inr merged
          \<and> summarize_group bos_eos_tokenizer ?sm ?r 80 30 =
              (pass_calls bos_eos_tokenizer 80 30 chunks @ pass_calls bos_eos_tokenizer 80 30 merged,
               Inr (join (pass_summaries bos_eos_tokenizer ?sm 80 30 merged)))"
    by blast
  have l1: "length chunks = 2"
    using length_chunk_text_900 [OF ch] by (simp add: bos_eos_length_True)
  with res obtain merged where
    ch2: "chunk_text bos_eos_tokenizer
            [join (pass_summaries bos_eos_tokenizer ?sm 80 30 chunks)] 900 = Inr merged"
    and g: "summarize_group bos_eos_tokenizer ?sm ?r 80 30 =
              (pass_calls bos_eos_tokenizer 80 30 chunks @ pass_calls bos_eos_tokenizer 80 30 merged,
               Inr (join (pass_summaries bos_eos_tokenizer ?sm 80 30 merged)))"
    by auto
  have "length (join (replicate (Suc 1) ?s)) = 161"
    unfolding length_join_replicate by simp
  then have "length (join (pass_summaries bos_eos_tokenizer ?sm 80 30 chunks)) = 161"
    unfolding pass_summaries_const l1 by (simp add: numeral_2_eq_2)
  then have l2: "length merged = 1"
    using length_chunk_text_900 [OF ch2] by (simp add: bos_eos_length_True)
  show ?thesis
    unfolding g pass_summaries_const l2
    by (simp add: length_pass_calls l1 l2)
qed

text \<open>
  C2 as the specification states it fails: a review of 9901 characters gives 12 chunks;
  12 summaries of 80 characters join to 971 characters, which the merge pass cuts in two
  chunks. After 14 calls the function returns the two summaries of the merge pass joined
  by a space; no further pass is made.
\<close>

theorem summarize_group_two_passes_counterexample:
  "length (fst (summarize_group bos_eos_tokenizer (const_summarizer (replicate 80 CHR ''a''))
      \<lparr>wine_variant = ''Merlot'', rating_band = ''85-89 (Very Good)'',
       review_texts = [replicate 9901 CHR ''x'']\<rparr> 80 30)) = 14
   \<and> snd (summarize_group bos_eos_tokenizer (const_summarizer (replicate 80 CHR ''a''))
      \<lparr>wine_variant = ''Merlot'', rating_band = ''85-89 (Very Good)'',
       review_texts = [replicate 9901 CHR ''x'']\<rparr> 80 30)
     = Inr (replicate 80 CHR ''a'' @ '' '' @ replicate 80 CHR ''a'')"
proof -
  let ?r = "\<lparr>wine_variant = ''Merlot'', rating_band = ''85-89 (Very Good)'',
       review_texts = [replicate 9901 CHR ''x'']\<rparr>"
  let ?s = "replicate 80 CHR ''a''"
  obtain chunks where ch1: "chunk_text bos_eos_tokenizer (review_texts ?r) 900 = Inr chunks"
    using chunk_text_900_Inr by blast
  have l1: "length chunks = 12"
    using length_chunk_text_900 [OF ch1] by (simp add: bos_eos_length_True)
  obtain merged where
    ch2: "chunk_text bos_eos_tokenizer [join (replicate (length chunks) ?s)] 900 = Inr merged"
    using chunk_text_900_Inr by blast
  have "length (join (replicate (Suc 11) ?s)) = 971"
    unfolding length_join_replicate by simp
  then have "length (join (replicate (length chunks) ?s)) = 971"
    unfolding l1 by simp
  then have l2: "length merged = 2"
    using length_chunk_text_900 [OF ch2] by (simp add: bos_eos_length_True)
  have j2: "join (replicate (length merged) ?s) = ?s @ '' '' @ ?s"
    unfolding l2 by (simp add: numeral_2_eq_2)
  have gt: "length chunks > 1" using l1 by simp
  show ?thesis
    unfolding const_two_passes [OF ch1 gt ch2] j2
    by (simp add: length_pass_calls l1 l2)
qed

text \<open>
  C3 (as the code has it). \<^verbatim>\<open>summarize_group\<close> has no check for an empty list of
  reviews. It encodes the empty string. When that gives no token, there is no chunk, no
  call of the summarizer is made, and \<^verbatim>\<open>summaries[0]\<close> raises \<^verbatim>\<open>IndexError\<close>. When it
  gives tokens, the summarizer is called; with at most 900 tokens it is called exactly
  once, on \<open>intro\<close> followed by the decoded tokens, and the outcome of that call is
  returned.
\<close>

theorem summarize_group_no_reviews:
  assumes "review_texts r = []"
  shows "(encode tk [] True = [] \<longrightarrow>
            summarize_group tk sm r max_len min_len = ([], Inl IndexError))
       \<and> (encode tk [] True \<noteq> [] \<longrightarrow>
            fst (summarize_group tk sm r max_len min_len) \<noteq> [])
       \<and> (encode tk [] True \<noteq> [] \<and> length (encode tk [] True) \<le> 900 \<longrightarrow>
            summarize_group tk sm r max_len min_len =
              ([summarizer_call tk max_len min_len (decode tk (encode tk [] True))],
               sm (summarizer_call tk max_len min_len (decode tk (encode tk [] True)))))"
proof -
  have j: "join (review_texts r) = []" using assms by simp
  show ?thesis
    using summarize_group_no_tokens [of tk r sm max_len min_len]
      summarize_group_called [of tk r sm max_len min_len]
      summarize_group_single [of tk r sm max_len min_len]
    unfolding j by blast
qed

text \<open>Both cases: a tokenizer without special tokens, and one that adds them.\<close>

theorem summarize_group_no_reviews_witness:
  "summarize_group char_tokenizer lead_summarizer
     \<lparr>wine_variant = ''Merlot'', rating_band = ''85-89 (Very Good)'', review_texts = []\<rparr>
     80 30 = ([], Inl IndexError)
   \<and> summarize_group bos_eos_tokenizer lead_summarizer
     \<lparr>wine_variant = ''Merlot'', rating_band = ''85-89 (Very Good)'', review_texts = []\<rparr>
     80 30 = ([(intro, 35, 30)], Inr [])"
proof -
  let ?r = "\<lparr>wine_variant = ''Merlot'', rating_band = ''85-89 (Very Good)'',
             review_texts = []\<rparr>"
  have e: "review_texts ?r = []" by simp
  have c: "summarizer_call bos_eos_tokenizer 80 30 [] = (intro, 35, 30)"
    by (simp add: summarizer_call_def bos_eos_length_False dynamic_max_eq)
  have d: "lead_summarizer (intro, 35, 30) = Inr []"
    using lead_summarizer_call [of "[]" 35 30] by simp
  have "summarize_group char_tokenizer lead_summarizer ?r 80 30 = ([], Inl IndexError)"
    using summarize_group_no_reviews [OF e, of char_tokenizer lead_summarizer 80 30]
    by (simp add: char_encode)
  moreover have "summarize_group bos_eos_tokenizer lead_summarizer ?r 80 30 =
      ([(intro, 35, 30)], Inr [])"
    using summarize_group_no_reviews [OF e, of bos_eos_tokenizer lead_summarizer 80 30]
    by (simp add: bos_eos_encode_True bos_eos_decode_specials c d)
  ultimately show ?thesis by simp
qed

text \<open>
  C3 as the specification states it fails: with a tokenizer that wraps every text in a
  begin and an end token, as the one of the script does, the empty group leads to one
  call of the summarizer on the bare prompt, and its summary is returned.
\<close>

theorem summarize_group_no_reviews_counterexample:
  "summarize_group bos_eos_tokenizer (const_summarizer ''Bright cherry fruit.'')
     \<lparr>wine_variant = ''Merlot'', rating_band = ''85-89 (Very Good)'', review_texts = []\<rparr>
     80 30 = ([(intro, 35, 30)], Inr ''Bright cherry fruit.'')"
proof -
  let ?r = "\<lparr>wine_variant = ''Merlot'', rating_band = ''85-89 (Very Good)'',
             review_texts = []\<rparr>"
  have "length (join (review_texts ?r)) \<le> 898" by simp
  from bos_eos_single [OF this, of "const_summarizer ''Bright cherry fruit.''" 80 30]
  show ?thesis
    by (simp add: dynamic_max_eq const_summarizer_def)
qed

text \<open>
  C4 (as the code has it). The code does not validate the budget. With
  \<open>max_len < min_len\<close> every call that \<^verbatim>\<open>summarize_group\<close> makes carries
  \<open>max_length = max_len\<close> and \<open>min_length = min_len\<close>, and at least one call is made
  whenever the joined text has a token. \<^verbatim>\<open>summarize_group\<close> always chunks with 900
  tokens; \<^verbatim>\<open>chunk_text\<close> called with \<open>max_tokens = 0\<close> raises \<^verbatim>\<open>ValueError\<close> (from
  \<^verbatim>\<open>range\<close>), and with a negative \<open>max_tokens\<close> it returns no chunk and raises nothing.
\<close>

theorem summarize_group_budget_unchecked:
  assumes "max_len < min_len"
  shows "(\<forall>c \<in> set (fst (summarize_group tk sm r max_len min_len)). snd c = (max_len, min_len))
       \<and> (encode tk (join (review_texts r)) True \<noteq> [] \<longrightarrow>
            fst (summarize_group tk sm r max_len min_len) \<noteq> [])
       \<and> chunk_text tk texts 0 = Inl ValueError
       \<and> (max_tokens < 0 \<longrightarrow> chunk_text tk texts max_tokens = Inr [])"
proof -
  have "snd c = (max_len, min_len)"
    if "c \<in> set (fst (summarize_group tk sm r max_len min_len))" for c
  proof -
    from summarize_group_calls [OF that] obtain w where
      "c = summarizer_call tk max_len min_len (decode tk w)" by blast
    then show ?thesis
      by (simp add: summarizer_call_def dynamic_max_inverted [OF assms])
  qed
  moreover have "chunk_text tk texts 0 = Inl ValueError"
    by (simp add: chunk_text_def chunk_tokens_def py_range0_def range_step_def)
  moreover have "chunk_text tk texts max_tokens = Inr []" if "max_tokens < 0"
    using that by (simp add: chunk_text_def chunk_tokens_def py_range0_def range_step_def)
  ultimately show ?thesis
    using summarize_group_called [of tk r sm max_len min_len] by blast
qed

text \<open>A group of two short reviews with the bounds \<open>max_len = 40\<close>, \<open>min_len = 50\<close>.\<close>

theorem summarize_group_budget_unchecked_witness:
  "(intro @ ''Deep ruby color. Soft tannins.'', 40, 50)
     \<in> set (fst (summarize_group bos_eos_tokenizer lead_summarizer
          \<lparr>wine_variant = ''Merlot'', rating_band = ''85-89 (Very Good)'',
           review_texts = [''Deep ruby color.'', ''Soft tannins.'']\<rparr> 40 50))
   \<and> snd (intro @ ''Deep ruby color. Soft tannins.'', 40 :: int, 50 :: int) = (40, 50)
   \<and> fst (summarize_group bos_eos_tokenizer lead_summarizer
          \<lparr>wine_variant = ''Merlot'', rating_band = ''85-89 (Very Good)'',
           review_texts = [''Deep ruby color.'', ''Soft tannins.'']\<rparr> 40 50) \<noteq> []
   \<and> chunk_text bos_eos_tokenizer [''Deep ruby color.'', ''Soft tannins.''] 0 = Inl ValueError
   \<and> chunk_text bos_eos_tokenizer [''Deep ruby color.'', ''Soft tannins.''] (- 1) = Inr []"
proof -
  let ?r = "\<lparr>wine_variant = ''Merlot'', rating_band = ''85-89 (Very Good)'',
           review_texts = [''Deep ruby color.'', ''Soft tannins.'']\<rparr>"
  have lt: "(40::int) < 50" by simp
  have mem: "(intro @ ''Deep ruby color. Soft tannins.'', 40, 50)
     \<in> set (fst (summarize_group bos_eos_tokenizer lead_summarizer ?r 40 50))"
    by (simp add: example_group_call dynamic_max_eq)
  have ne: "encode bos_eos_tokenizer (join (review_texts ?r)) True \<noteq> []"
    by (simp add: bos_eos_encode_True)
  from summarize_group_budget_unchecked [OF lt, of bos_eos_tokenizer lead_summarizer ?r
      "[''Deep ruby color.'', ''Soft tannins.'']" "- 1"] mem ne
  show ?thesis by simp
qed

text \<open>
  C4 as the specification states it fails: with \<open>max_len = 40 < min_len = 50\<close> the
  summarizer is called and its summary is returned, and \<^verbatim>\<open>chunk_text\<close> with
  \<open>max_tokens = - 1\<close> returns the empty list of chunks.
\<close>

theorem summarize_group_budget_unchecked_counterexample:
  "summarize_group bos_eos_tokenizer lead_summarizer
     \<lparr>wine_variant = ''Merlot'', rating_band = ''85-89 (Very Good)'',
      review_texts = [''Deep ruby color.'', ''Soft tannins.'']\<rparr> 40 50 =
     ([(intro @ ''Deep ruby color. Soft tannins.'', 40, 50)],
      Inr ''Deep ruby color. Soft tannins.'')
   \<and> chunk_text bos_eos_tokenizer [''Deep ruby color.'', ''Soft tannins.''] (- 1) = Inr []"
  by (simp add: example_group_call dynamic_max_eq lead_summarizer_call
        chunk_text_def chunk_tokens_def py_range0_def range_step_def)

text \<open>
  C5 (as the code has it). \<^verbatim>\<open>chunk_text\<close> never cuts an empty token sequence when the
  tokenizer wraps every text in special tokens, as the one of the script does: the empty
  input encodes to the special tokens alone. When \<open>max_tokens\<close> is at least the number
  of these tokens, chunking the empty input gives exactly one chunk, and its text is
  empty. For a smaller \<open>max_tokens\<close> the special tokens are spread over several windows.
\<close>

theorem chunk_text_empty_input:
  assumes "encode tk [] True \<noteq> []"
    and "int (length (encode tk [] True)) \<le> max_tokens"
    and "decode tk (encode tk [] True) = []"
  shows "chunk_text tk [] max_tokens = Inr ['''']"
  using chunk_text_single [of tk "[]" max_tokens] assms by simp

text \<open>The empty input at the default \<open>max_tokens = 900\<close> and at \<open>max_tokens = 2\<close>.\<close>

theorem chunk_text_empty_input_witness:
  "chunk_text bos_eos_tokenizer [] 900 = Inr [''''] \<and> chunk_text bos_eos_tokenizer [] 2 = Inr ['''']"
  using chunk_text_empty_input [of bos_eos_tokenizer 900] chunk_text_empty_input [of bos_eos_tokenizer 2]
  by (simp add: bos_eos_encode_True bos_eos_decode_specials)

text \<open>
  C5 as the specification states it fails at \<open>max_tokens = 1\<close>: the begin token and the
  end token of the empty input fall into two windows, and the result is two chunks, each
  with empty text.
\<close>

theorem chunk_text_empty_input_counterexample:
  "chunk_text bos_eos_tokenizer [] 1 = Inr ['''', '''']"
  by (simp add: chunk_text_def chunk_tokens_pos bos_eos_tokenizer_def)

text \<open>
  C8 (as the code has it). \<^verbatim>\<open>chunk_text\<close> counts the tokens of the joined text with the
  special tokens that the tokenizer adds. When the tokenizer wraps the text in a begin
  and an end token and the text itself has at most 898 tokens (900 with the two special
  tokens), \<^verbatim>\<open>chunk_text\<close> gives exactly one chunk, exactly one call of the summarizer is
  made, and \<^verbatim>\<open>summarize_group\<close> returns the outcome of that call unchanged: its summary,
  or the exception it raised. There is no merge pass.
\<close>

theorem summarize_group_single_chunk:
  assumes "encode tk (join (review_texts r)) True =
             bos # encode tk (join (review_texts r)) False @ [eos]"
    and "length (encode tk (join (review_texts r)) False) \<le> 898"
  shows "chunk_text tk (review_texts r) 900 =
           Inr [decode tk (encode tk (join (review_texts r)) True)]
       \<and> summarize_group tk sm r max_len min_len =
           ([summarizer_call tk max_len min_len
               (decode tk (encode tk (join (review_texts r)) True))],
            sm (summarizer_call tk max_len min_len
               (decode tk (encode tk (join (review_texts r)) True))))"
proof -
  have a: "encode tk (join (review_texts r)) True \<noteq> []"
    using assms(1) by simp
  have b: "length (encode tk (join (review_texts r)) True) \<le> 900"
    using assms(2) unfolding assms(1) by simp
  show ?thesis
    using a b by (simp only: chunk_text_900_single summarize_group_single simp_thms)
qed

text \<open>A review of 898 characters: one chunk, one call, the summary returned as it is.\<close>

theorem summarize_group_single_chunk_witness:
  "chunk_text bos_eos_tokenizer [replicate 898 CHR ''x''] 900 = Inr [replicate 898 CHR ''x'']
   \<and> summarize_group bos_eos_tokenizer lead_summarizer
       \<lparr>wine_variant = ''Merlot'', rating_band = ''85-89 (Very Good)'',
        review_texts = [replicate 898 CHR ''x'']\<rparr> 80 30 =
     ([(intro @ replicate 898 CHR ''x'', 80, 30)], Inr (replicate 80 CHR ''x''))"
proof -
  let ?r = "\<lparr>wine_variant = ''Merlot'', rating_band = ''85-89 (Very Good)'',
        review_texts = [replicate 898 CHR ''x'']\<rparr>"
  have e: "review_texts ?r = [replicate 898 CHR ''x'']" by simp
  have j: "join [replicate 898 CHR ''x''] = replicate 898 CHR ''x''" by simp
  have a: "encode bos_eos_tokenizer (join (review_texts ?r)) True =
             0 # encode bos_eos_tokenizer (join (review_texts ?r)) False @ [2]"
    by (simp add: bos_eos_tokenizer_def)
  have b: "length (encode bos_eos_tokenizer (join (review_texts ?r)) False) \<le> 898"
    by (simp add: bos_eos_length_False)
  have c: "summarizer_call bos_eos_tokenizer 80 30 (replicate 898 CHR ''x'') =
             (intro @ replicate 898 CHR ''x'', 80, 30)"
    by (simp add: summarizer_call_def bos_eos_length_False dynamic_max_eq)
  have d: "lead_summarizer (intro @ replicate 898 CHR ''x'', 80, 30) = Inr (replicate 80 CHR ''x'')"
    unfolding lead_summarizer_call by simp
  from summarize_group_single_chunk [OF a b, of lead_summarizer 80 30]
  show ?thesis
    unfolding e j bos_eos_decode_encode c d .
qed

text \<open>
  C8 as the specification states it fails: a review of 899 characters has 899 tokens,
  which is at most 900, but 901 with the begin and the end token. \<^verbatim>\<open>chunk_text\<close> gives
  two chunks, the second holding the end token alone; three calls are made, and the
  result is the summary of the merge pass, not the summary of a chunk of the input.
\<close>

theorem summarize_group_single_chunk_counterexample:
  "length (encode bos_eos_tokenizer (join [replicate 899 CHR ''x'']) False) = 899
   \<and> chunk_text bos_eos_tokenizer [replicate 899 CHR ''x''] 900 =
       Inr [replicate 899 CHR ''x'', '''']
   \<and> summarize_group bos_eos_tokenizer lead_summarizer
       \<lparr>wine_variant = ''Merlot'', rating_band = ''85-89 (Very Good)'',
        review_texts = [replicate 899 CHR ''x'']\<rparr> 80 30 =
     ([(intro @ replicate 899 CHR ''x'', 80, 30), (intro, 35, 30),
       (intro @ replicate 80 CHR ''x'' @ '' '', 64, 30)],
      Inr (replicate 64 CHR ''x''))"
proof -
  let ?r = "\<lparr>wine_variant = ''Merlot'', rating_band = ''85-89 (Very Good)'',
        review_texts = [replicate 899 CHR ''x'']\<rparr>"
  have ch: "chunk_text bos_eos_tokenizer (review_texts ?r) 900 =
              Inr [replicate 899 CHR ''x'', '''']"
    using example_899_chunks by simp
  have g: "summarize_group bos_eos_tokenizer lead_summarizer ?r 80 30 =
     ([(intro @ replicate 899 CHR ''x'', 80, 30), (intro, 35, 30),
       (intro @ replicate 80 CHR ''x'' @ '' '', 64, 30)],
      Inr (replicate 64 CHR ''x''))"
    unfolding summarize_group_nofail [OF lead_summarizer_total ch] example_899_summaries
      example_899_merged
    by (simp add: pass_calls_def pass_summaries_def summarizer_call_def lead_summarizer_call
          bos_eos_length_False dynamic_max_eq)
  show ?thesis
    using g example_899_chunks by (simp add: bos_eos_length_False)
qed

text \<open>
  C10. Every call of the summarizer that \<^verbatim>\<open>summarize_group\<close> makes, in the first pass
  and in the merge pass, has as input text the prefix \<open>intro\<close> followed by the decoded
  text of a token window of at most 900 tokens; the window bound covers the chunk only,
  and the input is 54 characters (the length of \<open>intro\<close>) longer than the chunk.
\<close>

theorem summarize_group_prompt:
  "\<forall>c \<in> set (fst (summarize_group tk sm r max_len min_len)).
     \<exists>w. length w \<le> 900
       \<and> c = (intro @ decode tk w,
              dynamic_max max_len min_len (length (encode tk (decode tk w) False)),
              min_len)
       \<and> length (fst c) = 54 + length (decode tk w)"
proof
  fix c
  assume "c \<in> set (fst (summarize_group tk sm r max_len min_len))"
  then obtain w where w: "length w \<le> 900"
    "c = summarizer_call tk max_len min_len (decode tk w)"
    using summarize_group_calls by blast
  then show "\<exists>w. length w \<le> 900
       \<and> c = (intro @ decode tk w,
              dynamic_max max_len min_len (length (encode tk (decode tk w) False)),
              min_len)
       \<and> length (fst c) = 54 + length (decode tk w)"
    by (intro exI [of _ w]) (simp add: summarizer_call_def length_intro)
qed

text \<open>The call made for a group of two short reviews.\<close>

theorem summarize_group_prompt_witness:
  "(intro @ ''Deep ruby color. Soft tannins.'', 35, 30)
     \<in> set (fst (summarize_group bos_eos_tokenizer lead_summarizer
          \<lparr>wine_variant = ''Merlot'', rating_band = ''85-89 (Very Good)'',
           review_texts = [''Deep ruby color.'', ''Soft tannins.'']\<rparr> 80 30))
   \<and> (\<exists>w. length w \<le> 900
       \<and> (intro @ ''Deep ruby color. Soft tannins.'', 35, 30) =
           (intro @ decode bos_eos_tokenizer w,
            dynamic_max 80 30
              (length (encode bos_eos_tokenizer (decode bos_eos_tokenizer w) False)),
            30)
       \<and> length (intro @ ''Deep ruby color. Soft tannins.'') =
           54 + length (decode bos_eos_tokenizer w))"
proof -
  have mem: "(intro @ ''Deep ruby color. Soft tannins.'', 35, 30)
     \<in> set (fst (summarize_group bos_eos_tokenizer lead_summarizer
          \<lparr>wine_variant = ''Merlot'', rating_band = ''85-89 (Very Good)'',
           review_texts = [''Deep ruby color.'', ''Soft tannins.'']\<rparr> 80 30))"
    by (simp add: example_group_call dynamic_max_eq)
  from summarize_group_prompt [rule_format, OF mem] mem show ?thesis
    by simp
qed

section \<open>Properties of the validator\<close>

lemma split_lines_no_newline:
  assumes "newline \<notin> set l"
  shows "split_lines cur (l @ newline # rest) = (cur @ l) # split_lines [] rest"
  using assms by (induction l arbitrary: cur) auto

lemma file_lines_unlines:
  assumes "list_all (\<lambda>l. newline \<notin> set l) ls"
  shows "file_lines (unlines ls) = ls"
  using assms
proof (induction ls)
  case Nil
  show ?case by (simp add: file_lines_def unlines_def)
next
  case (Cons l ls)
  then have "split_lines [] (l @ newline # unlines ls) = l # split_lines [] (unlines ls)"
    using split_lines_no_newline [of l "[]" "unlines ls"] by simp
  with Cons show ?case
    by (simp add: file_lines_def unlines_def)
qed

lemma range_step_10: "range_step (10 * n) 10 = map (\<lambda>k. k * 10) [0..<n]"
proof -
  have "(10 * n + 10 - 1) div 10 = n" by simp
  then show ?thesis by (simp add: range_step_def)
qed

lemma length_expected_keys: "length expected_keys = 9"
  by (simp add: expected_keys_def)

lemma length_record_lines_of:
  assumes "length vals = 9"
  shows "length (record_lines_of vals) = 9"
  using assms by (simp add: record_lines_of_def length_expected_keys)

lemma length_dataset_lines:
  assumes "list_all (\<lambda>vals. length vals = 9) recs"
  shows "length (dataset_lines recs) = 10 * length recs"
  using assms
  by (induction recs) (simp_all add: dataset_lines_def length_record_lines_of)

lemma dataset_lines_Cons:
  "dataset_lines (vals # recs) = record_lines_of vals @ [''''] @ dataset_lines recs"
  by (simp add: dataset_lines_def)

lemma drop_dataset_lines:
  assumes "list_all (\<lambda>vals. length vals = 9) recs"
  shows "drop (10 * k) (dataset_lines recs) = dataset_lines (drop k recs)"
  using assms
proof (induction k arbitrary: recs)
  case 0
  show ?case by simp
next
  case (Suc k)
  show ?case
  proof (cases recs)
    case Nil
    then show ?thesis by (simp add: dataset_lines_def)
  next
    case (Cons vals rest)
    with Suc.prems have len: "length (record_lines_of vals) = 9"
      and rest: "list_all (\<lambda>vals. length vals = 9) rest"
      by (simp_all add: length_record_lines_of)
    have "drop (10 * Suc k) (dataset_lines recs) = drop (10 * k) (dataset_lines rest)"
      unfolding Cons dataset_lines_Cons using len by simp
    with Suc.IH [OF rest] Cons show ?thesis by simp
  qed
qed

lemma check_keys_None_iff:
  "check_keys n j kls = None \<longleftrightarrow> (\<forall>(k, l) \<in> set kls. startswith l (k @ '':''))"
  by (induction n j kls rule: check_keys.induct) auto

lemma check_records_cases:
  assumes "\<forall>i \<in> set starts. i + 9 < length lines"
  shows "(check_records lines starts = Inr (True, AllValid)
            \<and> (\<forall>i \<in> set starts. block_ok lines i))
       \<or> ((\<exists>m. check_records lines starts = Inr (False, m))
            \<and> (\<exists>i \<in> set starts. \<not> block_ok lines i))"
  using assms
proof (induction starts)
  case Nil
  show ?case by simp
next
  case (Cons i rest)
  then have inr: "\<not> length lines \<le> i + 9" by simp
  from Cons have IH: "(check_records lines rest = Inr (True, AllValid)
            \<and> (\<forall>i \<in> set rest. block_ok lines i))
       \<or> ((\<exists>m. check_records lines rest = Inr (False, m))
            \<and> (\<exists>i \<in> set rest. \<not> block_ok lines i))"
    by simp
  show ?case
  proof (cases "block_ok lines i")
    case True
    then have "check_records lines (i # rest) = check_records lines rest"
      using inr by (auto simp add: block_ok_def Let_def)
    with True IH show ?thesis by auto
  next
    case False
    then have "\<exists>m. check_records lines (i # rest) = Inr (False, m)"
      using inr by (auto simp add: block_ok_def Let_def split: option.splits)
    with False show ?thesis by auto
  qed
qed

lemma aligned_starts_in_range:
  assumes "length lines = 10 * n"
  shows "\<forall>i \<in> set (range_step (length lines) 10). i + 9 < length lines"
  using assms by (auto simp add: range_step_10)

lemma zip_keys_record_lines:
  "zip ks (map (\<lambda>(k, v). k @ '': '' @ v) (zip ks vals)) =
     map (\<lambda>(k, v). (k, k @ '': '' @ v)) (zip ks vals)"
  by (induction ks vals rule: list_induct2') auto

lemma check_keys_record_lines:
  "check_keys n 0 (zip expected_keys (record_lines_of vals)) = None"
  unfolding check_keys_None_iff record_lines_of_def zip_keys_record_lines
  by (auto simp add: startswith_def)

lemma block_ok_dataset:
  assumes recs: "list_all (\<lambda>vals. length vals = 9) recs" and k: "k < length recs"
  shows "block_ok (dataset_lines recs) (k * 10)"
proof -
  obtain vals rest where d: "drop k recs = vals # rest"
    using k by (cases "drop k recs") auto
  then have "vals \<in> set recs" by (metis in_set_dropD list.set_intros(1))
  with recs have len: "length (record_lines_of vals) = 9"
    by (simp add: list_all_iff length_record_lines_of)
  have dr: "drop (k * 10) (dataset_lines recs) = record_lines_of vals @ [''''] @ dataset_lines rest"
    using drop_dataset_lines [OF recs, of k] d by (simp add: dataset_lines_Cons mult.commute)
  have total: "length (dataset_lines recs) = 10 * length recs"
    using recs by (rule length_dataset_lines)
  have sl: "slice (dataset_lines recs) (k * 10) (k * 10 + 9) = record_lines_of vals"
    unfolding slice_def using dr len by simp
  have "k * 10 + 9 < length (dataset_lines recs)"
    using total k by simp
  then have "dataset_lines recs ! (k * 10 + 9) = drop (k * 10) (dataset_lines recs) ! 9"
    by simp
  also have "\<dots> = ''''"
    unfolding dr using len by (simp add: nth_append)
  finally show ?thesis
    unfolding block_ok_def sl by (simp add: check_keys_record_lines)
qed

lemma check_records_dataset:
  assumes recs: "list_all (\<lambda>vals. length vals = 9) recs"
  shows "check_records (dataset_lines recs) (range_step (length (dataset_lines recs)) 10) =
           Inr (True, AllValid)"
proof -
  let ?ls = "dataset_lines recs"
  have total: "length ?ls = 10 * length recs"
    using recs by (rule length_dataset_lines)
  have ok: "\<forall>i \<in> set (range_step (length ?ls) 10). block_ok ?ls i"
    unfolding total range_step_10 using block_ok_dataset [OF recs] by auto
  from check_records_cases [OF aligned_starts_in_range [OF total]] ok
  show ?thesis by blast
qed

lemma keys_no_newline:
  assumes "k \<in> set expected_keys"
  shows "newline \<notin> set k"
  using assms by (auto simp add: expected_keys_def newline_def)

lemma record_lines_no_newline:
  assumes "\<forall>v \<in> set vals. newline \<notin> set v" and "l \<in> set (record_lines_of vals)"
  shows "newline \<notin> set l"
proof -
  from assms(2) obtain k v where kv: "(k, v) \<in> set (zip expected_keys vals)"
    and l: "l = k @ '': '' @ v"
    by (auto simp add: record_lines_of_def)
  from kv have "k \<in> set expected_keys" and "v \<in> set vals"
    by (auto dest: set_zip_leftD set_zip_rightD)
  with assms(1) keys_no_newline show ?thesis
    unfolding l by (auto simp add: newline_def)
qed

lemma validate_dataset:
  assumes "well_formed recs"
  shows "validate_wine_reviews (unlines (dataset_lines recs)) = Inr (True, AllValid)"
proof -
  have recs: "list_all (\<lambda>vals. length vals = 9) recs"
    using assms by (simp add: well_formed_def list_all_iff)
  have nonl: "list_all (\<lambda>l. newline \<notin> set l) (dataset_lines recs)"
    using assms record_lines_no_newline
    by (fastforce simp add: well_formed_def list_all_iff dataset_lines_def)
  have total: "length (dataset_lines recs) = 10 * length recs"
    using recs by (rule length_dataset_lines)
  have "(10 * length recs + 1) mod 10 \<noteq> 0" by simp
  then show ?thesis
    using check_records_dataset [OF recs]
    by (simp add: validate_wine_reviews_def file_lines_unlines [OF nonl] total)
qed

lemma validate_padded:
  "validate_wine_reviews content =
     (if length (padded_lines (file_lines content)) mod 10 \<noteq> 0
      then Inr (False, NotAligned (length (padded_lines (file_lines content))))
      else check_records (padded_lines (file_lines content))
             (range_step (length (padded_lines (file_lines content))) 10))"
  by (simp add: validate_wine_reviews_def padded_lines_def Let_def)

lemma validate_cases:
  fixes content
  defines "ls \<equiv> padded_lines (file_lines content)"
  shows "(validate_wine_reviews content = Inr (True, AllValid)
            \<and> length ls mod 10 = 0 \<and> (\<forall>k < length ls div 10. block_ok ls (k * 10)))
       \<or> ((\<exists>m. validate_wine_reviews content = Inr (False, m))
            \<and> (length ls mod 10 \<noteq> 0 \<or> (\<exists>k < length ls div 10. \<not> block_ok ls (k * 10))))"
proof (cases "length ls mod 10 = 0")
  case False
  then show ?thesis
    unfolding ls_def by (simp add: validate_padded)
next
  case True
  then obtain n where n: "length ls = 10 * n" by auto
  have v: "validate_wine_reviews content = check_records ls (range_step (length ls) 10)"
    using True unfolding ls_def by (simp add: validate_padded)
  have set: "set (range_step (length ls) 10) = (\<lambda>k. k * 10) ` {..<length ls div 10}"
    unfolding n range_step_10 by auto
  from check_records_cases [OF aligned_starts_in_range [OF n]] True
  show ?thesis
    unfolding v set by auto
qed

lemma block_ok_key:
  assumes ok: "block_ok ls s" and len: "s + 9 \<le> length ls" and j: "j < 9"
  shows "startswith (ls ! (s + j)) (expected_keys ! j @ '':'')"
proof -
  let ?rl = "slice ls s (s + 9)"
  have lrl: "length ?rl = 9" using len by (simp add: slice_def)
  have nth: "?rl ! j = ls ! (s + j)" using len j by (simp add: slice_def)
  have "j < length (zip expected_keys ?rl)"
    using j lrl by (simp add: length_expected_keys)
  then have "zip expected_keys ?rl ! j \<in> set (zip expected_keys ?rl)"
    by (rule nth_mem)
  moreover have "zip expected_keys ?rl ! j = (expected_keys ! j, ls ! (s + j))"
    using j lrl nth by (simp add: length_expected_keys)
  ultimately have "(expected_keys ! j, ls ! (s + j)) \<in> set (zip expected_keys ?rl)"
    by simp
  moreover from ok have "\<forall>(k, l) \<in> set (zip expected_keys ?rl). startswith l (k @ '':'')"
    by (simp add: block_ok_def check_keys_None_iff)
  ultimately show ?thesis by blast
qed

lemma padded_nth:
  assumes "i < length ls"
  shows "padded_lines ls ! i = ls ! i" and "i < length (padded_lines ls)"
  using assms by (simp_all add: padded_lines_def nth_append)

lemma validate_key_violation:
  assumes i: "i < length (file_lines content)" and j: "i mod 10 \<noteq> 9"
    and bad: "\<not> startswith (file_lines content ! i) (expected_keys ! (i mod 10) @ '':'')"
  shows "\<exists>m. validate_wine_reviews content = Inr (False, m)"
proof -
  let ?ls = "padded_lines (file_lines content)"
  have "\<not> (length ?ls mod 10 = 0 \<and> (\<forall>k < length ?ls div 10. block_ok ?ls (k * 10)))"
  proof
    assume a: "length ?ls mod 10 = 0 \<and> (\<forall>k < length ?ls div 10. block_ok ?ls (k * 10))"
    have il: "i < length ?ls" using i by (rule padded_nth)
    from a obtain n where n: "length ?ls = 10 * n" by auto
    from il have k: "i div 10 < n"
      unfolding n by (simp add: less_mult_imp_div_less mult.commute)
    with a have ok: "block_ok ?ls (i div 10 * 10)" by (simp add: n)
    have "i div 10 * 10 + 9 \<le> length ?ls" using k unfolding n by linarith
    from block_ok_key [OF ok this, of "i mod 10"] j
    have "startswith (?ls ! (i div 10 * 10 + i mod 10)) (expected_keys ! (i mod 10) @ '':'')"
      by simp
    with bad show False
      using padded_nth(1) [OF i] by simp
  qed
  with validate_cases [of content] show ?thesis by auto
qed

lemma validate_blank_violation:
  assumes i: "i + 1 < length (file_lines content)" and j: "i mod 10 = 9"
    and bad: "file_lines content ! i \<noteq> ''''"
  shows "\<exists>m. validate_wine_reviews content = Inr (False, m)"
proof -
  let ?ls = "padded_lines (file_lines content)"
  have "\<not> (length ?ls mod 10 = 0 \<and> (\<forall>k < length ?ls div 10. block_ok ?ls (k * 10)))"
  proof
    assume a: "length ?ls mod 10 = 0 \<and> (\<forall>k < length ?ls div 10. block_ok ?ls (k * 10))"
    have i': "i < length (file_lines content)" using i by simp
    have il: "i + 1 < length ?ls" using i padded_nth(2) [of "i + 1" "file_lines content"] by simp
    from a obtain n where n: "length ?ls = 10 * n" by auto
    from il have k: "i div 10 < n"
      unfolding n by (simp add: less_mult_imp_div_less mult.commute)
    with a have ok: "block_ok ?ls (i div 10 * 10)" by (simp add: n)
    have s: "i div 10 * 10 + 9 = i" using div_mult_mod_eq [of i 10] j by simp
    from ok il s have "?ls ! i = ''''"
      by (simp add: block_ok_def)
    with bad show False
      using padded_nth(1) [OF i'] by simp
  qed
  with validate_cases [of content] show ?thesis by auto
qed

lemma validate_misaligned:
  assumes "length (file_lines content) mod 10 \<noteq> 0"
    and "length (file_lines content) mod 10 \<noteq> 9"
  shows "validate_wine_reviews content = Inr (False, NotAligned (length (file_lines content)))"
proof -
  have "(length (file_lines content) + 1) mod 10 \<noteq> 0"
    using assms(2) by (simp add: mod_Suc)
  with assms(1) show ?thesis
    by (simp add: validate_wine_reviews_def)
qed

lemma dataset_lines_snoc:
  assumes "recs \<noteq> []"
  shows "butlast (dataset_lines recs) @ [''''] = dataset_lines recs"
  using assms
  by (cases recs rule: rev_cases) (simp_all add: dataset_lines_def butlast_append)

lemma validate_dataset_no_trailing_blank:
  assumes "well_formed recs" and "recs \<noteq> []"
  shows "validate_wine_reviews (unlines (butlast (dataset_lines recs))) = Inr (True, AllValid)"
proof -
  have recs: "list_all (\<lambda>vals. length vals = 9) recs"
    using assms(1) by (simp add: well_formed_def list_all_iff)
  have "list_all (\<lambda>l. newline \<notin> set l) (dataset_lines recs)"
    using assms(1) record_lines_no_newline
    by (fastforce simp add: well_formed_def list_all_iff dataset_lines_def)
  then have nonl: "list_all (\<lambda>l. newline \<notin> set l) (butlast (dataset_lines recs))"
    by (auto simp add: list_all_iff dest: in_set_butlastD)
  have total: "length (dataset_lines recs) = 10 * length recs"
    using recs by (rule length_dataset_lines)
  have "length recs > 0" using assms(2) by simp
  then have "(10 * length recs - 1 + 1) mod 10 = 0" by simp
  then have "padded_lines (butlast (dataset_lines recs)) = dataset_lines recs"
    using dataset_lines_snoc [OF assms(2)] by (simp add: padded_lines_def total)
  then show ?thesis
    using check_records_dataset [OF recs]
    by (simp add: validate_padded file_lines_unlines [OF nonl] total)
qed

lemma example_record_lines:
  "record_lines_of example_values =
     [''wine/name: Chateau Margaux'', ''wine/wineId: 1041'', ''wine/variant: Merlot'',
      ''wine/year: 2005'', ''review/points: 92'', ''review/time: 1199232000'',
      ''review/userId: 7731'', ''review/userName: ann'', ''review/text: Deep ruby color.'']"
  by (simp add: record_lines_of_def example_values_def expected_keys_def)

lemma example_well_formed: "well_formed [example_values]"
  by (simp add: well_formed_def example_values_def newline_def)

lemma split_lines_tail:
  assumes "newline \<notin> set l"
  shows "split_lines cur l = (if cur @ l = [] then [] else [cur @ l])"
  using assms by (induction l arbitrary: cur) auto

lemma file_lines_unlines_tail:
  assumes "list_all (\<lambda>l. newline \<notin> set l) ls" and "newline \<notin> set l"
  shows "file_lines (unlines ls @ l) = ls @ (if l = [] then [] else [l])"
  using assms(1)
proof (induction ls)
  case Nil
  show ?case
    using split_lines_tail [OF assms(2), of "[]"] by (simp add: file_lines_def unlines_def)
next
  case (Cons x ls)
  then have "split_lines [] (x @ newline # (unlines ls @ l)) = x # split_lines [] (unlines ls @ l)"
    using split_lines_no_newline [of x "[]" "unlines ls @ l"] by simp
  with Cons show ?case
    by (simp add: file_lines_def unlines_def)
qed

lemma butlast_unlines:
  assumes "ls \<noteq> []"
  shows "butlast (unlines ls) = unlines (butlast ls) @ last ls"
proof -
  from assms obtain xs l where ls: "ls = xs @ [l]"
    by (cases ls rule: rev_cases) auto
  have "unlines (xs @ [l]) = (unlines xs @ l) @ [newline]"
    by (simp add: unlines_def)
  then show ?thesis
    unfolding ls by (simp only: butlast_snoc last_snoc)
qed

lemma file_lines_no_final_newline:
  assumes "list_all (\<lambda>l. newline \<notin> set l) ls" and "ls \<noteq> []"
  shows "file_lines (butlast (unlines ls)) = (if last ls = [] then butlast ls else ls)"
proof -
  have a: "list_all (\<lambda>l. newline \<notin> set l) (butlast ls)"
    using assms(1) by (auto simp add: list_all_iff dest: in_set_butlastD)
  have b: "newline \<notin> set (last ls)"
    using assms by (auto simp add: list_all_iff)
  have "butlast ls @ [last ls] = ls"
    using assms(2) by simp
  then show ?thesis
    unfolding butlast_unlines [OF assms(2)] file_lines_unlines_tail [OF a b]
    by auto
qed

lemma validate_file_lines_cong:
  assumes "file_lines c = file_lines c'"
  shows "validate_wine_reviews c = validate_wine_reviews c'"
  using assms by (simp add: validate_wine_reviews_def)

lemma dataset_no_newline:
  assumes "well_formed recs"
  shows "list_all (\<lambda>l. newline \<notin> set l) (dataset_lines recs)"
  using assms record_lines_no_newline
  by (fastforce simp add: well_formed_def list_all_iff dataset_lines_def)

lemma record_lines_nonempty:
  assumes "l \<in> set (record_lines_of vals)"
  shows "l \<noteq> []"
  using assms by (auto simp add: record_lines_of_def)

lemma last_butlast_dataset:
  assumes recs: "list_all (\<lambda>vals. length vals = 9) recs" and ne: "recs \<noteq> []"
  shows "butlast (dataset_lines recs) \<noteq> [] \<and> last (butlast (dataset_lines recs)) \<noteq> []"
proof -
  from ne obtain rs vals where r: "recs = rs @ [vals]"
    by (cases recs rule: rev_cases) auto
  with recs have len: "length (record_lines_of vals) = 9"
    by (simp add: length_record_lines_of)
  then have rl: "record_lines_of vals \<noteq> []" by auto
  have b: "butlast (dataset_lines recs) = dataset_lines rs @ record_lines_of vals"
    unfolding r by (simp add: dataset_lines_def butlast_append)
  have "last (record_lines_of vals) \<in> set (record_lines_of vals)"
    using rl by simp
  then have "last (record_lines_of vals) \<noteq> []"
    by (rule record_lines_nonempty)
  then show ?thesis
    unfolding b using rl by simp
qed

lemma validate_dataset_no_final_newline:
  assumes "well_formed recs" and "recs \<noteq> []"
  shows "validate_wine_reviews (butlast (unlines (dataset_lines recs))) = Inr (True, AllValid)"
    and "validate_wine_reviews (butlast (unlines (butlast (dataset_lines recs)))) =
           Inr (True, AllValid)"
proof -
  have recs: "list_all (\<lambda>vals. length vals = 9) recs"
    using assms(1) by (simp add: well_formed_def list_all_iff)
  have nonl: "list_all (\<lambda>l. newline \<notin> set l) (dataset_lines recs)"
    using assms(1) by (rule dataset_no_newline)
  then have nonl': "list_all (\<lambda>l. newline \<notin> set l) (butlast (dataset_lines recs))"
    by (auto simp add: list_all_iff dest: in_set_butlastD)
  have dne: "dataset_lines recs \<noteq> []"
    using dataset_lines_snoc [OF assms(2)] by auto
  have lst: "last (dataset_lines recs) = []"
    using dataset_lines_snoc [OF assms(2)] by (metis last_snoc)
  have bl: "butlast (dataset_lines recs) \<noteq> []"
    and lbl: "last (butlast (dataset_lines recs)) \<noteq> []"
    using last_butlast_dataset [OF recs assms(2)] by simp_all
  have f1: "file_lines (butlast (unlines (dataset_lines recs))) = butlast (dataset_lines recs)"
    using file_lines_no_final_newline [OF nonl dne] lst by simp
  have f2: "file_lines (butlast (unlines (butlast (dataset_lines recs)))) =
              butlast (dataset_lines recs)"
    using file_lines_no_final_newline [OF nonl' bl] lbl by simp
  have f0: "file_lines (unlines (butlast (dataset_lines recs))) = butlast (dataset_lines recs)"
    using nonl' by (rule file_lines_unlines)
  have v: "validate_wine_reviews (unlines (butlast (dataset_lines recs))) = Inr (True, AllValid)"
    using assms by (rule validate_dataset_no_trailing_blank)
  show "validate_wine_reviews (butlast (unlines (dataset_lines recs))) = Inr (True, AllValid)"
    using validate_file_lines_cong [of "butlast (unlines (dataset_lines recs))"
        "unlines (butlast (dataset_lines recs))"] f1 f0 v by simp
  show "validate_wine_reviews (butlast (unlines (butlast (dataset_lines recs)))) =
           Inr (True, AllValid)"
    using validate_file_lines_cong [of "butlast (unlines (butlast (dataset_lines recs)))"
        "unlines (butlast (dataset_lines recs))"] f2 f0 v by simp
qed

lemma slice_butlast:
  assumes "j < length xs"
  shows "slice xs i j = slice (butlast xs) i j"
proof -
  have "min (j - i) (length xs - 1 - i) = j - i"
    using assms by linarith
  then show ?thesis
    by (simp add: slice_def butlast_conv_take drop_take)
qed

lemma block_ok_butlast:
  assumes b: "butlast xs = butlast ys" and l: "length xs = length ys"
    and i: "i + 9 < length xs"
  shows "block_ok xs i = block_ok ys i"
proof -
  have s: "slice xs i (i + 9) = slice ys i (i + 9)"
    using slice_butlast [of "i + 9" xs i] slice_butlast [of "i + 9" ys i] i l b by simp
  have n: "xs ! (i + 9) = ys ! (i + 9)" if "i + 10 < length xs"
  proof -
    have "i + 9 < length (butlast xs)" using that by simp
    then have "butlast xs ! (i + 9) = xs ! (i + 9)" by (rule nth_butlast)
    moreover have "i + 9 < length (butlast ys)" using that l by simp
    then have "butlast ys ! (i + 9) = ys ! (i + 9)" by (rule nth_butlast)
    ultimately show ?thesis using b by simp
  qed
  show ?thesis
    unfolding block_ok_def s using n l by auto
qed

lemma validate_last_line_unchecked:
  assumes wf: "well_formed recs" and ne: "recs \<noteq> []" and l: "newline \<notin> set l"
  shows "validate_wine_reviews (unlines (butlast (dataset_lines recs) @ [l])) =
           Inr (True, AllValid)"
proof -
  let ?ls = "dataset_lines recs"
  let ?ls' = "butlast ?ls @ [l]"
  have recs: "list_all (\<lambda>vals. length vals = 9) recs"
    using wf by (simp add: well_formed_def list_all_iff)
  have total: "length ?ls = 10 * length recs"
    using recs by (rule length_dataset_lines)
  have pos: "0 < length recs" using ne by simp
  have total': "length ?ls' = 10 * length recs"
    using total pos by simp
  have "list_all (\<lambda>l. newline \<notin> set l) ?ls"
    using wf by (rule dataset_no_newline)
  then have nonl: "list_all (\<lambda>l. newline \<notin> set l) ?ls'"
    using l by (auto simp add: list_all_iff dest: in_set_butlastD)
  have fl: "file_lines (unlines ?ls') = ?ls'"
    using nonl by (rule file_lines_unlines)
  have pad: "padded_lines ?ls' = ?ls'"
    unfolding padded_lines_def total' by simp
  have ok: "\<forall>i \<in> set (range_step (length ?ls') 10). block_ok ?ls' i"
  proof
    fix i
    assume "i \<in> set (range_step (length ?ls') 10)"
    then obtain k where k: "k < length recs" and i: "i = k * 10"
      unfolding total' range_step_10 by auto
    have in_range: "i + 9 < length ?ls'"
      unfolding total' i using k by linarith
    have "block_ok ?ls' i = block_ok ?ls i"
      using in_range total total' by (intro block_ok_butlast) simp_all
    with block_ok_dataset [OF recs k] show "block_ok ?ls' i"
      unfolding i by simp
  qed
  have "check_records ?ls' (range_step (length ?ls') 10) = Inr (True, AllValid)"
    using check_records_cases [OF aligned_starts_in_range [OF total']] ok by blast
  then show ?thesis
    unfolding validate_padded fl pad total' by simp
qed

text \<open>
  C9 (as the code has it). For every file that consists of records of nine
  \<open>key: value\<close> lines in the fixed key order, each followed by an empty line,
  \<^verbatim>\<open>validate_wine_reviews\<close> returns success; also when the empty line after the last
  record is left out, and whether or not the last line of the file ends in a newline.
  The tenth line of the last block is not inspected: success is also returned when any
  line stands in place of the empty line after the last record. Failure is returned
  when the number of lines is not a multiple of ten and not one less than a multiple of
  ten; when the tenth line of a block that is not the last block is not empty; and when
  a line among the first nine of a block does not start with the key of its position
  followed by a colon.
\<close>

theorem validate_wine_reviews_format:
  "(well_formed recs \<longrightarrow>
      validate_wine_reviews (unlines (dataset_lines recs)) = Inr (True, AllValid))
   \<and> (well_formed recs \<and> recs \<noteq> [] \<longrightarrow>
      validate_wine_reviews (unlines (butlast (dataset_lines recs))) = Inr (True, AllValid)
      \<and> validate_wine_reviews (butlast (unlines (dataset_lines recs))) = Inr (True, AllValid)
      \<and> validate_wine_reviews (butlast (unlines (butlast (dataset_lines recs)))) =
          Inr (True, AllValid))
   \<and> (well_formed recs \<and> recs \<noteq> [] \<and> newline \<notin> set l \<longrightarrow>
      validate_wine_reviews (unlines (butlast (dataset_lines recs) @ [l])) =
        Inr (True, AllValid))
   \<and> (length (file_lines content) mod 10 \<noteq> 0 \<and> length (file_lines content) mod 10 \<noteq> 9 \<longrightarrow>
      validate_wine_reviews content = Inr (False, NotAligned (length (file_lines content))))
   \<and> (i + 1 < length (file_lines content) \<and> i mod 10 = 9 \<and> file_lines content ! i \<noteq> '''' \<longrightarrow>
      (\<exists>m. validate_wine_reviews content = Inr (False, m)))
   \<and> (i < length (file_lines content) \<and> i mod 10 \<noteq> 9
        \<and> \<not> startswith (file_lines content ! i) (expected_keys ! (i mod 10) @ '':'') \<longrightarrow>
      (\<exists>m. validate_wine_reviews content = Inr (False, m)))"
  using validate_dataset [of recs] validate_dataset_no_trailing_blank [of recs]
    validate_dataset_no_final_newline [of recs] validate_last_line_unchecked [of recs l]
    validate_misaligned [of content] validate_blank_violation [of i content]
    validate_key_violation [of i content]
  by blast

text \<open>
  A file of one record, with and without the final empty line and the final newline; two
  records of which the second is followed by a line that is not empty; a file of three
  lines; two records separated by a line of dashes; and a record whose first line
  carries the second key.
\<close>

theorem validate_wine_reviews_format_witness:
  "validate_wine_reviews (unlines (dataset_lines [example_values])) = Inr (True, AllValid)
   \<and> validate_wine_reviews (unlines (butlast (dataset_lines [example_values]))) =
       Inr (True, AllValid)
   \<and> validate_wine_reviews (butlast (unlines (dataset_lines [example_values]))) =
       Inr (True, AllValid)
   \<and> validate_wine_reviews (butlast (unlines (butlast (dataset_lines [example_values])))) =
       Inr (True, AllValid)
   \<and> validate_wine_reviews
        (unlines (butlast (dataset_lines [example_values, example_values])
                  @ [''wine/name: extra''])) =
       Inr (True, AllValid)
   \<and> validate_wine_reviews
        (unlines [''wine/name: Chateau Margaux'', ''wine/wineId: 1041'', ''wine/variant: Merlot'']) =
       Inr (False, NotAligned 3)
   \<and> (\<exists>m. validate_wine_reviews
        (unlines (record_lines_of example_values @ [''---''] @ dataset_lines [example_values])) =
       Inr (False, m))
   \<and> (\<exists>m. validate_wine_reviews
        (unlines ((dataset_lines [example_values]) [0 := ''wine/wineId: 1041''])) =
       Inr (False, m))"
proof -
  let ?short = "[''wine/name: Chateau Margaux'', ''wine/wineId: 1041'', ''wine/variant: Merlot'']"
  let ?noblank = "record_lines_of example_values @ [''---''] @ dataset_lines [example_values]"
  let ?swapped = "(dataset_lines [example_values]) [0 := ''wine/wineId: 1041'']"
  have ne: "[example_values] \<noteq> []" by simp
  have a: "validate_wine_reviews (unlines (dataset_lines [example_values])) = Inr (True, AllValid)"
    using validate_wine_reviews_format [of "[example_values]" "[]" "[]" 0] example_well_formed
    by blast
  have b: "validate_wine_reviews (unlines (butlast (dataset_lines [example_values]))) =
             Inr (True, AllValid)
           \<and> validate_wine_reviews (butlast (unlines (dataset_lines [example_values]))) =
             Inr (True, AllValid)
           \<and> validate_wine_reviews (butlast (unlines (butlast (dataset_lines [example_values])))) =
             Inr (True, AllValid)"
    using validate_wine_reviews_format [of "[example_values]" "[]" "[]" 0] example_well_formed ne
    by blast
  have wf2: "well_formed [example_values, example_values]"
    using example_well_formed by (simp add: well_formed_def)
  have nl: "newline \<notin> set ''wine/name: extra''"
    by (simp add: newline_def)
  have u: "validate_wine_reviews
        (unlines (butlast (dataset_lines [example_values, example_values])
                  @ [''wine/name: extra''])) = Inr (True, AllValid)"
    using validate_wine_reviews_format
      [of "[example_values, example_values]" "''wine/name: extra''" "[]" 0] wf2 nl
    by blast
  have fl1: "file_lines (unlines ?short) = ?short"
    by (rule file_lines_unlines) (simp add: newline_def)
  have l1: "length (file_lines (unlines ?short)) = 3"
    unfolding fl1 by simp
  have "length (file_lines (unlines ?short)) mod 10 \<noteq> 0
        \<and> length (file_lines (unlines ?short)) mod 10 \<noteq> 9"
    unfolding l1 by simp
  with validate_wine_reviews_format [of "[]" "[]" "unlines ?short" 0]
  have "validate_wine_reviews (unlines ?short) =
          Inr (False, NotAligned (length (file_lines (unlines ?short))))"
    by blast
  then have c: "validate_wine_reviews (unlines ?short) = Inr (False, NotAligned 3)"
    unfolding l1 .
  have fl2: "file_lines (unlines ?noblank) = ?noblank"
    by (rule file_lines_unlines)
      (simp add: dataset_lines_def example_record_lines newline_def)
  have "9 + 1 < length (file_lines (unlines ?noblank)) \<and> (9::nat) mod 10 = 9
        \<and> file_lines (unlines ?noblank) ! 9 \<noteq> []"
    unfolding fl2 by (simp add: dataset_lines_def example_record_lines)
  with validate_wine_reviews_format [of "[]" "[]" "unlines ?noblank" 9]
  have d: "\<exists>m. validate_wine_reviews (unlines ?noblank) = Inr (False, m)"
    by blast
  have fl3: "file_lines (unlines ?swapped) = ?swapped"
    by (rule file_lines_unlines)
      (simp add: dataset_lines_def example_record_lines newline_def)
  have "0 < length (file_lines (unlines ?swapped)) \<and> (0::nat) mod 10 \<noteq> 9
        \<and> \<not> startswith (file_lines (unlines ?swapped) ! 0)
              (expected_keys ! ((0::nat) mod 10) @ '':'')"
    unfolding fl3
    by (simp add: dataset_lines_def example_record_lines startswith_def expected_keys_def)
  with validate_wine_reviews_format [of "[]" "[]" "unlines ?swapped" 0]
  have e: "\<exists>m. validate_wine_reviews (unlines ?swapped) = Inr (False, m)"
    by blast
  from a b u c d e show ?thesis by blast
qed

text \<open>
  C9 as the specification states it fails: a record followed by a line that is not
  empty is not a record followed by one blank line, and the file is accepted.
\<close>

theorem validate_wine_reviews_format_counterexample:
  "validate_wine_reviews
     (unlines
       [''wine/name: Chateau Margaux'', ''wine/wineId: 1041'', ''wine/variant: Merlot'',
        ''wine/year: 2005'', ''review/points: 92'', ''review/time: 1199232000'',
        ''review/userId: 7731'', ''review/userName: ann'', ''review/text: Deep ruby color.'',
        ''garbage'']) = Inr (True, AllValid)"
proof -
  have nl: "newline \<notin> set ''garbage''"
    by (simp add: newline_def)
  have ne: "[example_values] \<noteq> []" by simp
  have b: "butlast (dataset_lines [example_values]) @ [''garbage''] =
       [''wine/name: Chateau Margaux'', ''wine/wineId: 1041'', ''wine/variant: Merlot'',
        ''wine/year: 2005'', ''review/points: 92'', ''review/time: 1199232000'',
        ''review/userId: 7731'', ''review/userName: ann'', ''review/text: Deep ruby color.'',
        ''garbage'']"
    by (simp add: dataset_lines_def example_record_lines)
  from validate_last_line_unchecked [OF example_well_formed ne nl] show ?thesis
    unfolding b .
qed

end
